theory Spec2Isabelle
  imports Complex_Main "HOL-Library.Word"
begin

unbundle bit_operations_syntax

section \<open>Data model\<close>

text \<open>
  The codec of \<^verbatim>\<open>js/utils/canvas.js\<close> (multi-file container format) and of its
  single-file predecessor (the legacy \<^verbatim>\<open>canvas.js\<close> with a 32-byte header) is embedded
  function by function. An \<^verbatim>\<open>ArrayBuffer\<close> or \<^verbatim>\<open>Uint8Array\<close> is a list of
  bytes, a canvas is its width, its height and the RGBA bytes of its image data, a
  JavaScript string is the list of its code points (a lone surrogate is a code point
  in D800..DFFF), a thrown exception is the \<open>Inl\<close> branch of a sum and the calls of the
  progress callback are returned as the list of the fractions passed, in call order.
  The fractions are rationals. Each of them is the quotient of two integers that a
  double holds exactly, with a non-zero denominator; the division of doubles is
  correctly rounded, hence monotone, and gives 1 exactly when the two integers are
  equal, so the comparisons made below (equal to 1, less or equal) agree with those
  on doubles.
\<close>

type_synonym u8 = "8 word"

type_synonym js_string = "nat list"

record canvas =
  width :: nat
  height :: nat
  data :: "u8 list"

record file_entry =
  fname :: js_string
  ftype :: "js_string option"
  fdata :: "u8 list"

record extracted =
  ename :: js_string
  etype :: js_string
  edata :: "u8 list"

datatype error =
    RangeError
  | InvalidMagic
  | UnsupportedVersion u8
  | NoFilesFound
  | NoValidFilesFound
  | InvalidDataLength
  | NotEnoughData
  | IndexSizeError
  | FailedToEncode
  | FailedToDecode

definition HEADER_SIZE :: nat where
  "HEADER_SIZE = 64"

definition FILE_HEADER_SIZE :: nat where
  "FILE_HEADER_SIZE = 128"

definition CHUNK_SIZE :: nat where
  "CHUNK_SIZE = 1024 * 512"

text \<open>\<^verbatim>\<open>HEADER_SIZE\<close> of the legacy module.\<close>

definition LEGACY_HEADER_SIZE :: nat where
  "LEGACY_HEADER_SIZE = 32"

section \<open>Dimension planner\<close>

text \<open>
  \<^verbatim>\<open>Math.ceil(Math.sqrt(p))\<close> for a natural number \<open>p\<close> is the least \<open>s\<close> with
  \<open>p \<le> s * s\<close>; \<open>sqrt_search\<close> finds it by counting up, so that the planner can be
  evaluated. Lemma \<open>ceil_sqrt_real\<close> below relates it to the real square root; the
  rounding of \<^verbatim>\<open>Math.sqrt\<close> to a double does not change the ceiling for the pixel
  counts below \<open>2 ^ 52\<close>, and is not modelled.
\<close>

function sqrt_search :: "nat \<Rightarrow> nat \<Rightarrow> nat" where
  "sqrt_search p s = (if p \<le> s * s then s else sqrt_search p (Suc s))"
  by pat_completeness auto
termination
proof (relation "measure (\<lambda>(p, s). p - s)")
  show "wf (measure (\<lambda>(p, s). p - s))" by simp
next
  fix p s :: nat
  assume "\<not> p \<le> s * s"
  then have "s * s < p" by simp
  moreover have "s \<le> s * s" by (cases s) simp_all
  ultimately have "s < p" by linarith
  then show "((p, Suc s), (p, s)) \<in> measure (\<lambda>(p, s). p - s)" by simp
qed

declare sqrt_search.simps [simp del]

definition ceil_sqrt :: "nat \<Rightarrow> nat" where
  "ceil_sqrt p = sqrt_search p 0"

definition ceil_div :: "nat \<Rightarrow> nat \<Rightarrow> nat" where
  "ceil_div a b = (a + b - 1) div b"

text \<open>
  The body shared by both planners, from the total size on:
  \<^verbatim>\<open>totalPixelsNeeded = Math.ceil(totalSize / 3)\<close>, the side, the even width and
  the height.
\<close>

definition planCanvas :: "nat \<Rightarrow> nat \<times> nat" where
  "planCanvas totalSize =
     (let totalPixelsNeeded = ceil_div totalSize 3;
          side = ceil_sqrt totalPixelsNeeded;
          w = (if side mod 2 = 0 then side else side + 1);
          h = ceil_div totalPixelsNeeded w
      in (w, h))"

text \<open>
  \<^verbatim>\<open>calculateCanvasSizeForFiles\<close> of \<^verbatim>\<open>js/utils/canvas.js\<close>; only
  \<^verbatim>\<open>file.data.byteLength\<close> of each file is read.
\<close>

definition calculateCanvasSizeForFiles :: "file_entry list \<Rightarrow> nat \<times> nat" where
  "calculateCanvasSizeForFiles files =
     planCanvas
       (fold (\<lambda>file totalSize. totalSize + FILE_HEADER_SIZE + length (fdata file))
          files HEADER_SIZE)"

text \<open>
  \<^verbatim>\<open>calculateCanvasSize\<close> of \<^verbatim>\<open>js/utils/canvas.js\<close>: the planner for the one
  file \<^verbatim>\<open>{ data: new ArrayBuffer(byteLength) }\<close>.
\<close>

definition calculateCanvasSize :: "nat \<Rightarrow> nat \<times> nat" where
  "calculateCanvasSize byteLength =
     calculateCanvasSizeForFiles
       [\<lparr>fname = [], ftype = None, fdata = replicate byteLength 0\<rparr>]"

text \<open>\<^verbatim>\<open>calculateCanvasSize\<close> of the legacy single-file module (32-byte header).\<close>

definition calculateCanvasSize_legacy :: "nat \<Rightarrow> nat \<times> nat" where
  "calculateCanvasSize_legacy byteLength = planCanvas (byteLength + LEGACY_HEADER_SIZE)"

section \<open>Typed arrays and data views\<close>

text \<open>
  A \<^verbatim>\<open>DataView\<close> access outside the view throws a \<^verbatim>\<open>RangeError\<close>; so does
  \<^verbatim>\<open>TypedArray.prototype.set\<close> when the source does not fit at the offset and the
  \<^verbatim>\<open>Uint8Array(buffer, byteOffset, length)\<close> constructor when the window leaves the
  buffer. Multi-byte accesses are little-endian, as every call site passes \<^verbatim>\<open>true\<close>.
\<close>

definition bindE :: "error + 'a \<Rightarrow> ('a \<Rightarrow> error + 'b) \<Rightarrow> error + 'b" where
  "bindE m f = (case m of Inl e \<Rightarrow> Inl e | Inr v \<Rightarrow> f v)"

definition getUint8 :: "u8 list \<Rightarrow> nat \<Rightarrow> error + nat" where
  "getUint8 buf off =
     (if length buf < off + 1 then Inl RangeError else Inr (unat (buf ! off)))"

definition getUint16 :: "u8 list \<Rightarrow> nat \<Rightarrow> error + nat" where
  "getUint16 buf off =
     (if length buf < off + 2 then Inl RangeError
      else Inr (unat (buf ! off) + 256 * unat (buf ! (off + 1))))"

definition getUint32 :: "u8 list \<Rightarrow> nat \<Rightarrow> error + nat" where
  "getUint32 buf off =
     (if length buf < off + 4 then Inl RangeError
      else Inr (unat (buf ! off) + 256 * unat (buf ! (off + 1))
                + 65536 * unat (buf ! (off + 2)) + 16777216 * unat (buf ! (off + 3))))"

definition setUint8 :: "u8 list \<Rightarrow> nat \<Rightarrow> nat \<Rightarrow> error + u8 list" where
  "setUint8 buf off v =
     (if length buf < off + 1 then Inl RangeError else Inr (buf[off := of_nat v]))"

definition setUint16 :: "u8 list \<Rightarrow> nat \<Rightarrow> nat \<Rightarrow> error + u8 list" where
  "setUint16 buf off v =
     (if length buf < off + 2 then Inl RangeError
      else Inr (buf[off := of_nat v, off + 1 := of_nat (v div 256)]))"

definition setUint32 :: "u8 list \<Rightarrow> nat \<Rightarrow> nat \<Rightarrow> error + u8 list" where
  "setUint32 buf off v =
     (if length buf < off + 4 then Inl RangeError
      else Inr (buf[off := of_nat v, off + 1 := of_nat (v div 256),
                    off + 2 := of_nat (v div 65536), off + 3 := of_nat (v div 16777216)]))"

text \<open>\<^verbatim>\<open>target.set(source, offset)\<close>.\<close>

definition array_set :: "u8 list \<Rightarrow> u8 list \<Rightarrow> nat \<Rightarrow> error + u8 list" where
  "array_set target source off =
     (if length target < off + length source then Inl RangeError
      else Inr (take off target @ source @ drop (off + length source) target))"

text \<open>\<^verbatim>\<open>new Uint8Array(arrayBuffer, byteOffset, length)\<close>.\<close>

definition array_view :: "u8 list \<Rightarrow> nat \<Rightarrow> nat \<Rightarrow> error + u8 list" where
  "array_view buf byteOffset len =
     (if length buf < byteOffset + len then Inl RangeError
      else Inr (take len (drop byteOffset buf)))"

text \<open>\<^verbatim>\<open>buffer.slice(begin, end)\<close> for \<open>0 \<le> begin\<close>: both ends are clamped to the length.\<close>

definition array_slice :: "u8 list \<Rightarrow> nat \<Rightarrow> nat \<Rightarrow> u8 list" where
  "array_slice buf b e = take (e - b) (drop b buf)"

text \<open>
  Reading an index outside a typed array yields \<^verbatim>\<open>undefined\<close>, which a
  \<^verbatim>\<open>Uint8Array\<close> stores as 0.
\<close>

definition data_at :: "u8 list \<Rightarrow> nat \<Rightarrow> u8" where
  "data_at d i = (if i < length d then d ! i else 0)"

text \<open>
  A write \<^verbatim>\<open>data[k] = v\<close> to a typed array is ignored unless \<open>k\<close> is an integer
  inside the array. The index is a JavaScript number, here a rational (the legacy encoder
  computes \<^verbatim>\<open>(i / 3) * 4\<close>). A \<^verbatim>\<open>Uint8ClampedArray\<close> clamps the value to 255.
\<close>

definition data_put :: "u8 list \<Rightarrow> rat \<Rightarrow> nat \<Rightarrow> u8 list" where
  "data_put d k v =
     (if of_int \<lfloor>k\<rfloor> = k \<and> 0 \<le> k \<and> nat \<lfloor>k\<rfloor> < length d
      then d[nat \<lfloor>k\<rfloor> := of_nat (min v 255)] else d)"

section \<open>Text encoding\<close>

text \<open>
  \<^verbatim>\<open>new TextEncoder().encode(s)\<close>: UTF-8, a lone surrogate becoming U+FFFD.
\<close>

definition utf8_encode_cp :: "nat \<Rightarrow> u8 list" where
  "utf8_encode_cp c =
     (if c < 0x80 then [of_nat c]
      else if c < 0x800 then [of_nat (0xC0 + c div 64), of_nat (0x80 + c mod 64)]
      else if (0xD800 \<le> c \<and> c \<le> 0xDFFF) \<or> 0x10FFFF < c then [0xEF, 0xBF, 0xBD]
      else if c < 0x10000
        then [of_nat (0xE0 + c div 4096), of_nat (0x80 + c div 64 mod 64), of_nat (0x80 + c mod 64)]
      else [of_nat (0xF0 + c div 262144), of_nat (0x80 + c div 4096 mod 64),
            of_nat (0x80 + c div 64 mod 64), of_nat (0x80 + c mod 64)])"

definition TextEncoder_encode :: "js_string \<Rightarrow> u8 list" where
  "TextEncoder_encode s = concat (map utf8_encode_cp s)"

text \<open>
  \<^verbatim>\<open>new TextDecoder().decode(bytes)\<close>: the UTF-8 decoder of the Encoding standard
  (state: code point, bytes seen, bytes needed, lower and upper boundary of the next
  continuation byte), every malformed sequence becoming U+FFFD, and, since the decoder
  is created without \<^verbatim>\<open>ignoreBOM\<close>, a leading byte order mark is removed from the
  result.
\<close>

fun utf8_decode :: "nat \<Rightarrow> nat \<Rightarrow> nat \<Rightarrow> nat \<Rightarrow> nat \<Rightarrow> u8 list \<Rightarrow> nat list" where
  "utf8_decode cp seen needed lo hi [] = (if needed \<noteq> 0 then [0xFFFD] else [])"
| "utf8_decode cp seen needed lo hi (b # bs) =
     (if needed = 0 then
        (if unat b \<le> 0x7F then unat b # utf8_decode 0 0 0 0x80 0xBF bs
         else if 0xC2 \<le> unat b \<and> unat b \<le> 0xDF
           then utf8_decode (unat b mod 32) 0 1 0x80 0xBF bs
         else if 0xE0 \<le> unat b \<and> unat b \<le> 0xEF
           then utf8_decode (unat b mod 16) 0 2
                  (if unat b = 0xE0 then 0xA0 else 0x80) (if unat b = 0xED then 0x9F else 0xBF) bs
         else if 0xF0 \<le> unat b \<and> unat b \<le> 0xF4
           then utf8_decode (unat b mod 8) 0 3
                  (if unat b = 0xF0 then 0x90 else 0x80) (if unat b = 0xF4 then 0x8F else 0xBF) bs
         else 0xFFFD # utf8_decode 0 0 0 0x80 0xBF bs)
      else if unat b < lo \<or> hi < unat b
        then 0xFFFD # utf8_decode 0 0 0 0x80 0xBF (b # bs)
      else if seen + 1 = needed
        then (cp * 64 + unat b mod 64) # utf8_decode 0 0 0 0x80 0xBF bs
      else utf8_decode (cp * 64 + unat b mod 64) (seen + 1) needed 0x80 0xBF bs)"

definition TextDecoder_decode :: "u8 list \<Rightarrow> js_string" where
  "TextDecoder_decode bs =
     (case utf8_decode 0 0 0 0x80 0xBF bs of
        [] \<Rightarrow> []
      | c # cs \<Rightarrow> if c = 0xFEFF then cs else c # cs)"

text \<open>The string literal \<^verbatim>\<open>'application/octet-stream'\<close>.\<close>

definition octet_stream :: js_string where
  "octet_stream = map of_char ''application/octet-stream''"

section \<open>Multi-file encoder\<close>

text \<open>
  One iteration of the loop "Prepare file headers and calculate offsets" of
  \<^verbatim>\<open>encodeFilesToCanvas\<close>: the 128-byte header of one file, written field by
  field in the order of the source.
\<close>

definition fileHeaderFor :: "file_entry \<Rightarrow> nat \<Rightarrow> error + u8 list" where
  "fileHeaderFor f dataOffset =
     (let nameBytes = TextEncoder_encode (fname f);
          mimeBytes = TextEncoder_encode
            (case ftype f of None \<Rightarrow> octet_stream
             | Some t \<Rightarrow> if t = [] then octet_stream else t);
          fileHeader = replicate FILE_HEADER_SIZE 0;
          nameLength = min (length nameBytes) 100;
          mimeLength = min (length mimeBytes) 20;
          fileSize = length (fdata f)
      in bindE (setUint16 fileHeader 0 nameLength) (\<lambda>h1.
         bindE (array_set h1 (take nameLength nameBytes) 2) (\<lambda>h2.
         bindE (setUint8 h2 102 mimeLength) (\<lambda>h3.
         bindE (array_set h3 (take mimeLength mimeBytes) 103) (\<lambda>h4.
         bindE (setUint32 h4 123 fileSize) (\<lambda>h5.
         setUint32 h5 127 dataOffset))))))"

text \<open>The loop itself, over the first \<open>fileCount\<close> files, threading \<open>dataOffset\<close>.\<close>

fun fileHeadersFor :: "file_entry list \<Rightarrow> nat \<Rightarrow> error + u8 list list" where
  "fileHeadersFor [] dataOffset = Inr []"
| "fileHeadersFor (f # fs) dataOffset =
     bindE (fileHeaderFor f dataOffset) (\<lambda>h.
     bindE (fileHeadersFor fs (dataOffset + length (fdata f))) (\<lambda>hs. Inr (h # hs)))"

text \<open>The main header: magic, version, file count, 58 reserved bytes.\<close>

definition mainHeader :: "nat \<Rightarrow> error + u8 list" where
  "mainHeader fileCount =
     bindE (setUint8 (replicate HEADER_SIZE 0) 0 0x46) (\<lambda>h0.
     bindE (setUint8 h0 1 0x32) (\<lambda>h1.
     bindE (setUint8 h1 2 0x50) (\<lambda>h2.
     bindE (setUint8 h2 3 0x31) (\<lambda>h3.
     bindE (setUint8 h3 4 1) (\<lambda>h4.
     setUint8 h4 5 fileCount)))))"

text \<open>
  The loop "Copy file data": after each file the callback receives
  \<^verbatim>\<open>offset / totalSize\<close>.
\<close>

fun copyProgress :: "file_entry list \<Rightarrow> nat \<Rightarrow> nat \<Rightarrow> rat list" where
  "copyProgress [] offset totalSize = []"
| "copyProgress (f # fs) offset totalSize =
     (of_nat (offset + length (fdata f)) / of_nat totalSize)
       # copyProgress fs (offset + length (fdata f)) totalSize"

section \<open>Pixel writer of the multi-file encoder\<close>

text \<open>
  The body of the \<^verbatim>\<open>for\<close> loop of \<^verbatim>\<open>encodeBufferToCanvas\<close> for one \<open>i\<close>: six
  bits of the buffer, starting at bit \<open>6 * i\<close>, are spread over the channels of pixel
  \<open>i\<close>.
\<close>

definition packPixel :: "u8 list \<Rightarrow> nat \<Rightarrow> u8 list \<Rightarrow> u8 list" where
  "packPixel buffer i d =
     (let byteIndex = (i * 3) div 4;
          bitOffset = (i * 6) mod 8
      in if byteIndex + 1 < length buffer then
           (let byte1 = unat (buffer ! byteIndex);
                byte2 = unat (buffer ! (byteIndex + 1));
                v = drop_bit (10 - bitOffset) (push_bit 8 byte1 OR byte2) AND 0x3F;
                pixelIndex = i * 4;
                d1 = data_put d (of_nat pixelIndex) (drop_bit 4 v * 51);
                d2 = data_put d1 (of_nat (pixelIndex + 1)) ((drop_bit 2 v AND 0x3) * 85);
                d3 = data_put d2 (of_nat (pixelIndex + 2)) ((v AND 0x3) * 85)
            in data_put d3 (of_nat (pixelIndex + 3)) 255)
         else d)"

function packLoop :: "u8 list \<Rightarrow> nat \<Rightarrow> rat \<Rightarrow> u8 list \<Rightarrow> u8 list" where
  "packLoop buffer i e d =
     (if of_nat i < e then packLoop buffer (i + 1) e (packPixel buffer i d) else d)"
  by pat_completeness auto
termination
proof (relation "measure (\<lambda>(buffer, i, e, d). nat \<lceil>e\<rceil> - i)")
  show "wf (measure (\<lambda>(buffer, i, e, d). nat \<lceil>e\<rceil> - i))" by simp
next
  fix buffer :: "u8 list" and i :: nat and e :: rat and d :: "u8 list"
  assume "of_nat i < e"
  then have "int i < \<lceil>e\<rceil>" by (simp add: less_ceiling_iff)
  then show "((buffer, i + 1, e, packPixel buffer i d), (buffer, i, e, d))
               \<in> measure (\<lambda>(buffer, i, e, d). nat \<lceil>e\<rceil> - i)"
    by simp
qed

declare packLoop.simps [simp del]

text \<open>
  \<^verbatim>\<open>processChunk\<close> of \<^verbatim>\<open>encodeBufferToCanvas\<close>. The bound of the loops is
  \<^verbatim>\<open>arrayBuffer.byteLength * 8 / 6\<close>. A further chunk is scheduled only when
  \<open>end < bound\<close>, and then \<open>end\<close> is \<open>start + CHUNK_SIZE\<close>, so that every \<open>start\<close> is a
  natural number. The last argument collects the fractions passed to the callback.
  The function is called on buffers of at least 64 bytes only (the container always
  holds the main header); on the empty buffer the quotient passed to the callback would
  be \<^verbatim>\<open>0 / 0\<close>, which this model does not represent.
\<close>

function packChunks :: "u8 list \<Rightarrow> nat \<Rightarrow> u8 list \<Rightarrow> rat list \<Rightarrow> u8 list \<times> rat list" where
  "packChunks buffer start d ps =
     (let bound = of_nat (length buffer) * 8 / 6;
          e = min (of_nat (start + CHUNK_SIZE)) bound;
          d' = packLoop buffer start e d;
          ps' = ps @ [e / bound]
      in if e < bound then packChunks buffer (start + CHUNK_SIZE) d' ps' else (d', ps'))"
  by pat_completeness auto
termination
proof (relation "measure (\<lambda>(buffer, start, d, ps).
                   nat \<lceil>(of_nat (length buffer) * 8 / 6 :: rat)\<rceil> - start)")
  show "wf (measure (\<lambda>(buffer, start, d, ps).
                   nat \<lceil>(of_nat (length buffer) * 8 / 6 :: rat)\<rceil> - start))"
    by simp
next
  fix buffer :: "u8 list" and start :: nat and d d' :: "u8 list" and bound e :: rat
    and ps ps' :: "rat list"
  assume b: "bound = of_nat (length buffer) * 8 / 6"
    and e: "e = min (of_nat (start + CHUNK_SIZE)) bound"
    and lt: "e < bound"
  from e lt have "of_nat (start + CHUNK_SIZE) < bound" by (simp add: min_def split: if_splits)
  then have "int (start + CHUNK_SIZE) < \<lceil>bound\<rceil>" by (simp add: less_ceiling_iff)
  moreover have "0 < CHUNK_SIZE" by (simp add: CHUNK_SIZE_def)
  ultimately show "((buffer, start + CHUNK_SIZE, d', ps'), (buffer, start, d, ps))
      \<in> measure (\<lambda>(buffer, start, d, ps).
                   nat \<lceil>(of_nat (length buffer) * 8 / 6 :: rat)\<rceil> - start)"
    using b by simp
qed

declare packChunks.simps [simp del]

text \<open>
  \<^verbatim>\<open>encodeBufferToCanvas\<close>: the canvas is sized by \<^verbatim>\<open>calculateCanvasSize\<close>, the image
  data start as transparent black (\<^verbatim>\<open>createImageData\<close>), the chunks are processed
  and the image data are put on the canvas. A 2D context is taken to be available.
\<close>

definition encodeBufferToCanvas :: "u8 list \<Rightarrow> canvas \<times> rat list" where
  "encodeBufferToCanvas arrayBuffer =
     (case calculateCanvasSize (length arrayBuffer) of
        (w, h) \<Rightarrow>
          (case packChunks arrayBuffer 0 (replicate (w * h * 4) 0) [] of
             (d, ps) \<Rightarrow> (\<lparr>width = w, height = h, data = d\<rparr>, ps)))"

text \<open>
  The first part of \<^verbatim>\<open>encodeFilesToCanvas\<close>, up to the call of
  \<^verbatim>\<open>encodeBufferToCanvas\<close>: it yields the combined buffer and the fractions
  reported while the file data are copied. The buffer is allocated with \<open>totalSize\<close>
  bytes and filled front to back with the main header, the file headers and the file
  data, which is their concatenation.
\<close>

definition containerBuffer :: "file_entry list \<Rightarrow> error + u8 list \<times> rat list" where
  "containerBuffer files =
     (let fileCount = min (length files) 255
      in bindE (mainHeader fileCount) (\<lambda>header.
         bindE (fileHeadersFor (take fileCount files) 0) (\<lambda>fileHeaders.
           (let totalSize = HEADER_SIZE
                  + (\<Sum>f\<leftarrow>take fileCount files. FILE_HEADER_SIZE + length (fdata f));
                buffer = header @ concat fileHeaders @ concat (map fdata (take fileCount files))
            in Inr (buffer,
                    copyProgress (take fileCount files)
                      (length header + length (concat fileHeaders)) totalSize)))))"

text \<open>\<^verbatim>\<open>encodeFilesToCanvas\<close>.\<close>

definition encodeFilesToCanvas :: "file_entry list \<Rightarrow> error + canvas \<times> rat list" where
  "encodeFilesToCanvas files =
     bindE (containerBuffer files) (\<lambda>(buffer, ps1).
       case encodeBufferToCanvas buffer of (c, ps2) \<Rightarrow> Inr (c, ps1 @ ps2))"

section \<open>Multi-file decoder\<close>

text \<open>
  The callback that \<^verbatim>\<open>extractFilesFromCanvas\<close> runs on the buffer delivered by
  \<^verbatim>\<open>extractDataFromCanvas\<close>. That function is not among the sources, so the buffer
  is the argument of the model and what is proved holds for every buffer.
  \<open>readEntry\<close> is the part of one iteration of "Read file headers" between the
  check for the end of the data and the push: it throws, or finds the data of the file
  beyond the buffer (\<open>None\<close>, the case of \<^verbatim>\<open>continue\<close>), or yields the file.
\<close>

definition readEntry :: "u8 list \<Rightarrow> nat \<Rightarrow> nat \<Rightarrow> error + extracted option" where
  "readEntry buf fileCount offset =
     bindE (getUint16 buf offset) (\<lambda>nameLength.
     bindE (array_view buf (offset + 2) (min 100 nameLength)) (\<lambda>nameBytes.
     bindE (getUint8 buf (offset + 102)) (\<lambda>mimeLength.
     bindE (array_view buf (offset + 103) (min 20 mimeLength)) (\<lambda>mimeBytes.
     bindE (getUint32 buf (offset + 123)) (\<lambda>size.
     bindE (getUint32 buf (offset + 127)) (\<lambda>dataOffset.
       (let nm = TextDecoder_decode nameBytes;
            ty = (if 0 < mimeLength then TextDecoder_decode mimeBytes else octet_stream);
            dataStart = HEADER_SIZE + fileCount * FILE_HEADER_SIZE + dataOffset;
            dataEnd = dataStart + size
        in if length buf < dataEnd then Inr None
           else Inr (Some \<lparr>ename = nm, etype = ty,
                           edata = array_slice buf dataStart dataEnd\<rparr>))))))))"

text \<open>
  The loop over the declared files carries the index \<open>i\<close>, the read position
  \<open>offset\<close>, the files pushed so far and the fractions reported so far.
  \<^verbatim>\<open>break\<close> leaves the loop; \<^verbatim>\<open>continue\<close> goes to the next \<open>i\<close> with
  \<open>offset\<close> as it is, since the increment of \<open>offset\<close> stands after it.
\<close>

function extractLoop ::
  "u8 list \<Rightarrow> nat \<Rightarrow> nat \<Rightarrow> nat \<Rightarrow> extracted list \<Rightarrow> rat list
     \<Rightarrow> error + extracted list \<times> rat list" where
  "extractLoop buf fileCount i offset files ps =
     (if i < fileCount then
        (if length buf < offset + FILE_HEADER_SIZE then Inr (files, ps)
         else
           (case readEntry buf fileCount offset of
              Inl e \<Rightarrow> Inl e
            | Inr None \<Rightarrow> extractLoop buf fileCount (i + 1) offset files ps
            | Inr (Some f) \<Rightarrow>
                extractLoop buf fileCount (i + 1) (offset + FILE_HEADER_SIZE)
                  (files @ [f]) (ps @ [of_nat (i + 1) / of_nat (fileCount + 1)])))
      else Inr (files, ps))"
  by pat_completeness auto
termination
  by (relation "measure (\<lambda>(buf, fileCount, i, offset, files, ps). fileCount - i)") auto

declare extractLoop.simps [simp del]

definition extractFiles :: "u8 list \<Rightarrow> error + extracted list \<times> rat list" where
  "extractFiles arrayBuffer =
     bindE (getUint8 arrayBuffer 0) (\<lambda>m0.
     if m0 \<noteq> 0x46 then Inl InvalidMagic else
     bindE (getUint8 arrayBuffer 1) (\<lambda>m1.
     if m1 \<noteq> 0x32 then Inl InvalidMagic else
     bindE (getUint8 arrayBuffer 2) (\<lambda>m2.
     if m2 \<noteq> 0x50 then Inl InvalidMagic else
     bindE (getUint8 arrayBuffer 3) (\<lambda>m3.
     if m3 \<noteq> 0x31 then Inl InvalidMagic else
     bindE (getUint8 arrayBuffer 4) (\<lambda>version.
     if version \<noteq> 1 then Inl (UnsupportedVersion (of_nat version)) else
     bindE (getUint8 arrayBuffer 5) (\<lambda>fileCount.
     if fileCount = 0 then Inl NoFilesFound else
     bindE (extractLoop arrayBuffer fileCount 0 HEADER_SIZE [] []) (\<lambda>(files, ps).
     if files = [] then Inl NoValidFilesFound else Inr (files, ps))))))))"

section \<open>Single-file encoder (legacy module)\<close>

text \<open>
  The legacy module stores one file behind a 32-byte header: the length of the name
  (2 bytes), the first 20 bytes of the name, the length of the mime type (2 bytes), its
  first 8 bytes, the length of the data (4 bytes).
\<close>

definition legacyHeader :: "nat \<Rightarrow> js_string \<Rightarrow> js_string \<Rightarrow> error + u8 list" where
  "legacyHeader byteLength filename mimeType =
     (let header = replicate LEGACY_HEADER_SIZE 0;
          filenameBytes = TextEncoder_encode filename;
          mimeBytes = TextEncoder_encode mimeType
      in bindE (setUint16 header 0 (length filenameBytes)) (\<lambda>h1.
         bindE (array_set h1 (array_slice filenameBytes 0 20) 2) (\<lambda>h2.
         bindE (setUint16 h2 22 (length mimeBytes)) (\<lambda>h3.
         bindE (array_set h3 (array_slice mimeBytes 0 8) 24) (\<lambda>h4.
         setUint32 h4 28 byteLength)))))"

text \<open>
  The body of the \<^verbatim>\<open>for\<close> loop of \<^verbatim>\<open>processChunk\<close> in
  \<^verbatim>\<open>encodeFileToCanvas\<close> for one \<open>i\<close>: three bytes go to the channels of the pixel
  at \<^verbatim>\<open>(i / 3) * 4\<close>. \<open>byte_at\<close> is the guarded read
  \<^verbatim>\<open>j < combined.length ? combined[j] : 0\<close>.
\<close>

definition byte_at :: "u8 list \<Rightarrow> nat \<Rightarrow> u8" where
  "byte_at combined j = (if j < length combined then combined ! j else 0)"

definition directPixel :: "u8 list \<Rightarrow> nat \<Rightarrow> u8 list \<Rightarrow> u8 list" where
  "directPixel combined i d =
     (let pixelIndex = (of_nat i / 3) * 4;
          r = unat (byte_at combined i);
          g = unat (byte_at combined (i + 1));
          b = unat (byte_at combined (i + 2));
          d1 = data_put d pixelIndex r;
          d2 = data_put d1 (pixelIndex + 1) g;
          d3 = data_put d2 (pixelIndex + 2) b
      in data_put d3 (pixelIndex + 3) 255)"

function directLoop :: "u8 list \<Rightarrow> nat \<Rightarrow> nat \<Rightarrow> u8 list \<Rightarrow> u8 list" where
  "directLoop combined i e d =
     (if i < e then directLoop combined (i + 3) e (directPixel combined i d) else d)"
  by pat_completeness auto
termination
  by (relation "measure (\<lambda>(combined, i, e, d). e - i)") auto

declare directLoop.simps [simp del]

function directChunks ::
  "u8 list \<Rightarrow> nat \<Rightarrow> u8 list \<Rightarrow> rat list \<Rightarrow> u8 list \<times> rat list" where
  "directChunks combined start d ps =
     (let e = min (start + CHUNK_SIZE) (length combined);
          d' = directLoop combined start e d;
          ps' = ps @ [of_nat e / of_nat (length combined)]
      in if e < length combined then directChunks combined e d' ps' else (d', ps'))"
  by pat_completeness auto
termination
proof (relation "measure (\<lambda>(combined, start, d, ps). length combined - start)")
  show "wf (measure (\<lambda>(combined, start, d, ps). length combined - start))" by simp
next
  fix combined :: "u8 list" and start e :: nat and d d' :: "u8 list" and ps ps' :: "rat list"
  assume e: "e = min (start + CHUNK_SIZE) (length combined)" and lt: "e < length combined"
  have "0 < CHUNK_SIZE" by (simp add: CHUNK_SIZE_def)
  with e lt have "start < e" by (simp add: min_def split: if_splits)
  with lt show "((combined, e, d', ps'), (combined, start, d, ps))
      \<in> measure (\<lambda>(combined, start, d, ps). length combined - start)"
    by simp
qed

declare directChunks.simps [simp del]

text \<open>The buffer \<^verbatim>\<open>combined\<close>: the header followed by the file data.\<close>

definition combinedBuffer :: "u8 list \<Rightarrow> js_string \<Rightarrow> js_string \<Rightarrow> error + u8 list" where
  "combinedBuffer arrayBuffer filename mimeType =
     bindE (legacyHeader (length arrayBuffer) filename mimeType) (\<lambda>header.
       Inr (header @ arrayBuffer))"

text \<open>
  \<^verbatim>\<open>encodeFileToCanvas\<close>; whatever is thrown inside is caught and rejected as
  "Failed to encode file to canvas".
\<close>

definition encodeFileToCanvas ::
  "u8 list \<Rightarrow> js_string \<Rightarrow> js_string \<Rightarrow> error + canvas \<times> rat list" where
  "encodeFileToCanvas arrayBuffer filename mimeType =
     (case calculateCanvasSize_legacy (length arrayBuffer) of
        (w, h) \<Rightarrow>
          (case combinedBuffer arrayBuffer filename mimeType of
             Inl e \<Rightarrow> Inl FailedToEncode
           | Inr combined \<Rightarrow>
               (case directChunks combined 0 (replicate (w * h * 4) 0) [] of
                  (d, ps) \<Rightarrow> Inr (\<lparr>width = w, height = h, data = d\<rparr>, ps))))"

section \<open>Single-file decoder (legacy module)\<close>

text \<open>
  The loop "Extract header bytes from image data": up to 11 pixels, three channels
  each, until 32 bytes are read. The list is the filled prefix of \<^verbatim>\<open>header\<close> and
  its length is \<^verbatim>\<open>headerBytesRead\<close>.
\<close>

function headerLoop :: "u8 list \<Rightarrow> nat \<Rightarrow> u8 list \<Rightarrow> u8 list" where
  "headerLoop d i header =
     (if i < 11 * 4 \<and> length header < LEGACY_HEADER_SIZE then
        (let h1 = (if length header < LEGACY_HEADER_SIZE then header @ [data_at d i] else header);
             h2 = (if length h1 < LEGACY_HEADER_SIZE then h1 @ [data_at d (i + 1)] else h1);
             h3 = (if length h2 < LEGACY_HEADER_SIZE then h2 @ [data_at d (i + 2)] else h2)
         in headerLoop d (i + 4) h3)
      else header)"
  by pat_completeness auto
termination
  by (relation "measure (\<lambda>(d, i, header). 44 - i)") auto

declare headerLoop.simps [simp del]

definition readHeader :: "u8 list \<Rightarrow> u8 list" where
  "readHeader d =
     (let header = headerLoop d 0 []
      in header @ replicate (LEGACY_HEADER_SIZE - length header) 0)"

text \<open>
  The \<^verbatim>\<open>for\<close> loop of \<^verbatim>\<open>processChunk\<close> in \<^verbatim>\<open>decodeFileFromCanvas\<close>; the list
  is the filled prefix of \<^verbatim>\<open>extractedData\<close> and its length is
  \<^verbatim>\<open>bytesExtracted\<close>.
\<close>

function readLoop :: "u8 list \<Rightarrow> nat \<Rightarrow> nat \<Rightarrow> nat \<Rightarrow> u8 list \<Rightarrow> u8 list" where
  "readLoop d dataLength i endPixel acc =
     (if i < endPixel then
        (let pixelIndex = i * 4;
             dataIndex = int (i * 3) - int LEGACY_HEADER_SIZE
         in if dataIndex < 0 then readLoop d dataLength (i + 1) endPixel acc
            else
              (let a1 = (if length acc < dataLength then acc @ [data_at d pixelIndex] else acc);
                   a2 = (if length a1 < dataLength then a1 @ [data_at d (pixelIndex + 1)] else a1);
                   a3 = (if length a2 < dataLength then a2 @ [data_at d (pixelIndex + 2)] else a2)
               in readLoop d dataLength (i + 1) endPixel a3))
      else acc)"
  by pat_completeness auto
termination
  by (relation "measure (\<lambda>(d, dataLength, i, endPixel, acc). endPixel - i)") auto

declare readLoop.simps [simp del]

function readChunks ::
  "u8 list \<Rightarrow> nat \<Rightarrow> nat \<Rightarrow> nat \<Rightarrow> u8 list \<Rightarrow> rat list \<Rightarrow> u8 list \<times> rat list" where
  "readChunks d dataLength totalPixelsNeeded startPixel acc ps =
     (let endPixel = min (startPixel + ceil_div CHUNK_SIZE 3) totalPixelsNeeded;
          acc' = readLoop d dataLength startPixel endPixel acc;
          ps' = ps @ [of_nat (length acc') / of_nat dataLength]
      in if endPixel < totalPixelsNeeded
         then readChunks d dataLength totalPixelsNeeded endPixel acc' ps'
         else (acc', ps'))"
  by pat_completeness auto
termination
proof (relation "measure (\<lambda>(d, dataLength, totalPixelsNeeded, startPixel, acc, ps).
                   totalPixelsNeeded - startPixel)")
  show "wf (measure (\<lambda>(d, dataLength, totalPixelsNeeded, startPixel, acc, ps).
                   totalPixelsNeeded - startPixel))" by simp
next
  fix d :: "u8 list" and dataLength totalPixelsNeeded startPixel endPixel :: nat
    and acc acc' :: "u8 list" and ps ps' :: "rat list"
  assume e: "endPixel = min (startPixel + ceil_div CHUNK_SIZE 3) totalPixelsNeeded"
    and lt: "endPixel < totalPixelsNeeded"
  have "0 < ceil_div CHUNK_SIZE 3" by (simp add: CHUNK_SIZE_def ceil_div_def)
  with e lt have "startPixel < endPixel" by (simp add: min_def split: if_splits)
  with lt show "((d, dataLength, totalPixelsNeeded, endPixel, acc', ps'),
                 (d, dataLength, totalPixelsNeeded, startPixel, acc, ps))
      \<in> measure (\<lambda>(d, dataLength, totalPixelsNeeded, startPixel, acc, ps).
                   totalPixelsNeeded - startPixel)"
    by simp
qed

declare readChunks.simps [simp del]

text \<open>The length that the header found in the image declares.\<close>

definition declaredLength :: "canvas \<Rightarrow> error + nat" where
  "declaredLength c = getUint32 (readHeader (data c)) 28"

text \<open>
  The \<^verbatim>\<open>try\<close> block of \<^verbatim>\<open>decodeFileFromCanvas\<close>. \<^verbatim>\<open>getImageData\<close> throws an
  \<^verbatim>\<open>IndexSizeError\<close> on an empty rectangle. The comparison of the declared length
  with the capacity is made on integers, as the right-hand side
  \<^verbatim>\<open>canvas.width * canvas.height * 3 - HEADER_SIZE\<close> may be negative.
\<close>

definition decodeFileFromCanvas_try :: "canvas \<Rightarrow> error + extracted \<times> rat list" where
  "decodeFileFromCanvas_try c =
     (if width c = 0 \<or> height c = 0 then Inl IndexSizeError else
      (let header = readHeader (data c)
       in bindE (getUint16 header 0) (\<lambda>filenameLength.
          bindE (getUint16 header 22) (\<lambda>mimeLength.
          bindE (declaredLength c) (\<lambda>dataLength.
            (let filename = TextDecoder_decode (array_slice header 2 (2 + min 20 filenameLength));
                 mimeBytes = array_slice header 24 (24 + min 8 mimeLength);
                 mimeType = (if 0 < mimeLength then TextDecoder_decode mimeBytes else octet_stream)
             in if dataLength \<le> 0
                   \<or> int (width c * height c * 3) - int LEGACY_HEADER_SIZE < int dataLength
                then Inl InvalidDataLength
                else
                  (let totalPixelsNeeded = ceil_div (dataLength + LEGACY_HEADER_SIZE) 3;
                       totalPixelsAvailable = width c * height c
                   in if totalPixelsAvailable < totalPixelsNeeded then Inl NotEnoughData
                      else
                        (case readChunks (data c) dataLength totalPixelsNeeded
                                (ceil_div LEGACY_HEADER_SIZE 3) [] [] of
                           (bytes, ps) \<Rightarrow>
                             Inr (\<lparr>ename = filename, etype = mimeType,
                                   edata = bytes @ replicate (dataLength - length bytes) 0\<rparr>,
                                  ps)))))))))"

text \<open>
  \<^verbatim>\<open>decodeFileFromCanvas\<close>: whatever the \<^verbatim>\<open>try\<close> block throws is caught and the
  promise is rejected with the one error "Failed to decode file from canvas".
\<close>

definition decodeFileFromCanvas :: "canvas \<Rightarrow> error + extracted \<times> rat list" where
  "decodeFileFromCanvas c =
     (case decodeFileFromCanvas_try c of
        Inl e \<Rightarrow> Inl FailedToDecode
      | Inr r \<Rightarrow> Inr r)"

section \<open>Properties of the dimension planner\<close>

lemma sqrt_search_ge: "p \<le> sqrt_search p s * sqrt_search p s"
proof (induction p s rule: sqrt_search.induct)
  case (1 p s)
  show ?case
  proof (cases "p \<le> s * s")
    case True
    then show ?thesis by (subst sqrt_search.simps, subst sqrt_search.simps) simp
  next
    case False
    with 1 show ?thesis by (subst sqrt_search.simps, subst (2) sqrt_search.simps) simp
  qed
qed

lemma sqrt_search_least: "s \<le> t \<Longrightarrow> p \<le> t * t \<Longrightarrow> sqrt_search p s \<le> t"
proof (induction p s rule: sqrt_search.induct)
  case (1 p s)
  show ?case
  proof (cases "p \<le> s * s")
    case True
    with 1 show ?thesis by (subst sqrt_search.simps) simp
  next
    case False
    with 1 have "s \<noteq> t" by auto
    with 1 have "Suc s \<le> t" by simp
    with 1 False show ?thesis by (subst sqrt_search.simps) simp
  qed
qed

lemma ceil_sqrt_pos: "0 < p \<Longrightarrow> 0 < ceil_sqrt p"
  using sqrt_search_ge [of p 0] by (cases "ceil_sqrt p") (simp_all add: ceil_sqrt_def)

lemma ceil_div_mult_ge: "0 < b \<Longrightarrow> a \<le> ceil_div a b * b"
proof -
  assume b: "0 < b"
  have "a + b - 1 = (a + b - 1) div b * b + (a + b - 1) mod b" by simp
  moreover have "(a + b - 1) mod b < b" using b by simp
  ultimately show ?thesis unfolding ceil_div_def by linarith
qed

lemma ceil_div_pos: "0 < a \<Longrightarrow> 0 < b \<Longrightarrow> 0 < ceil_div a b"
  by (simp add: ceil_div_def div_greater_zero_iff)

lemma planCanvas_width_pos: "0 < totalSize \<Longrightarrow> 0 < fst (planCanvas totalSize)"
  using ceil_sqrt_pos [of "ceil_div totalSize 3"] ceil_div_pos [of totalSize 3]
  by (simp add: planCanvas_def Let_def)

lemma planCanvas_width_even: "even (fst (planCanvas totalSize))"
  by (simp add: planCanvas_def Let_def even_iff_mod_2_eq_zero) presburger

lemma planCanvas_pixels:
  assumes "0 < totalSize"
  shows "ceil_div totalSize 3 \<le> fst (planCanvas totalSize) * snd (planCanvas totalSize)"
proof -
  let ?p = "ceil_div totalSize 3"
  let ?w = "fst (planCanvas totalSize)"
  have w: "0 < ?w" using assms by (rule planCanvas_width_pos)
  have "snd (planCanvas totalSize) = ceil_div ?p ?w"
    by (simp add: planCanvas_def Let_def)
  then show ?thesis using ceil_div_mult_ge [OF w, of ?p] by (simp add: mult.commute)
qed

lemma planCanvas_capacity:
  assumes "0 < totalSize"
  shows "totalSize \<le> fst (planCanvas totalSize) * snd (planCanvas totalSize) * 3"
proof -
  have "totalSize \<le> ceil_div totalSize 3 * 3" by (rule ceil_div_mult_ge) simp
  also have "\<dots> \<le> fst (planCanvas totalSize) * snd (planCanvas totalSize) * 3"
    using planCanvas_pixels [OF assms] by simp
  finally show ?thesis .
qed

lemma fold_totalSize:
  "fold (\<lambda>file totalSize. totalSize + FILE_HEADER_SIZE + length (fdata file)) files acc
     = acc + (\<Sum>f\<leftarrow>files. FILE_HEADER_SIZE + length (fdata f))"
  by (induction files arbitrary: acc) simp_all

lemma ceil_sqrt_real: "ceil_sqrt p = nat \<lceil>sqrt (real p)\<rceil>"
proof (rule antisym)
  let ?t = "nat \<lceil>sqrt (real p)\<rceil>"
  have "sqrt (real p) \<le> real ?t" by (simp add: of_nat_ceiling)
  then have "real p \<le> (real ?t)\<^sup>2" by (simp add: sqrt_le_D)
  then have "p \<le> ?t * ?t" by (metis of_nat_le_iff of_nat_mult power2_eq_square)
  then show "ceil_sqrt p \<le> ?t" unfolding ceil_sqrt_def by (intro sqrt_search_least) simp_all
next
  let ?s = "ceil_sqrt p"
  have "p \<le> ?s * ?s" unfolding ceil_sqrt_def by (rule sqrt_search_ge)
  then have "real p \<le> (real ?s)\<^sup>2" by (metis of_nat_le_iff of_nat_mult power2_eq_square)
  then have "sqrt (real p) \<le> real ?s" by (simp add: real_le_lsqrt)
  then show "nat \<lceil>sqrt (real p)\<rceil> \<le> ?s" by (simp add: ceiling_le_iff nat_le_iff)
qed

lemma calculateCanvasSizeForFiles_total:
  "calculateCanvasSizeForFiles files
     = planCanvas (HEADER_SIZE + (\<Sum>f\<leftarrow>files. FILE_HEADER_SIZE + length (fdata f)))"
  by (simp add: calculateCanvasSizeForFiles_def fold_totalSize)

text \<open>
  C4. For every list of files the planner of the multi-file module returns a width and a
  height with \<open>width * height * 3\<close> at least the total size it computed (the main
  header, and a file header and the data for each file), and for every byte length \<open>n\<close>
  both single-length planners return a width and a height with \<open>width * height * 3 \<ge> n\<close>;
  the width is even in each case. The planners are functions of their argument alone.
\<close>

theorem planner_capacity_and_even_width:
  "HEADER_SIZE + (\<Sum>f\<leftarrow>files. FILE_HEADER_SIZE + length (fdata f))
      \<le> fst (calculateCanvasSizeForFiles files) * snd (calculateCanvasSizeForFiles files) * 3
   \<and> even (fst (calculateCanvasSizeForFiles files))
   \<and> n \<le> fst (calculateCanvasSize_legacy n) * snd (calculateCanvasSize_legacy n) * 3
   \<and> even (fst (calculateCanvasSize_legacy n))
   \<and> n \<le> fst (calculateCanvasSize n) * snd (calculateCanvasSize n) * 3
   \<and> even (fst (calculateCanvasSize n))"
proof -
  let ?total = "HEADER_SIZE + (\<Sum>f\<leftarrow>files. FILE_HEADER_SIZE + length (fdata f))"
  have pos: "0 < ?total" by (simp add: HEADER_SIZE_def)
  have a: "?total \<le> fst (calculateCanvasSizeForFiles files)
                      * snd (calculateCanvasSizeForFiles files) * 3"
    unfolding calculateCanvasSizeForFiles_total by (rule planCanvas_capacity [OF pos])
  have b: "even (fst (calculateCanvasSizeForFiles files))"
    unfolding calculateCanvasSizeForFiles_total by (rule planCanvas_width_even)
  have "n + LEGACY_HEADER_SIZE
          \<le> fst (calculateCanvasSize_legacy n) * snd (calculateCanvasSize_legacy n) * 3"
    unfolding calculateCanvasSize_legacy_def
    by (rule planCanvas_capacity) (simp add: LEGACY_HEADER_SIZE_def)
  then have c: "n \<le> fst (calculateCanvasSize_legacy n) * snd (calculateCanvasSize_legacy n) * 3"
    by simp
  have d: "even (fst (calculateCanvasSize_legacy n))"
    unfolding calculateCanvasSize_legacy_def by (rule planCanvas_width_even)
  have "HEADER_SIZE + (FILE_HEADER_SIZE + n)
          \<le> fst (calculateCanvasSize n) * snd (calculateCanvasSize n) * 3"
    unfolding calculateCanvasSize_def calculateCanvasSizeForFiles_total
    using planCanvas_capacity [of "HEADER_SIZE + (FILE_HEADER_SIZE + n)"]
    by (simp add: HEADER_SIZE_def)
  then have e: "n \<le> fst (calculateCanvasSize n) * snd (calculateCanvasSize n) * 3"
    by simp
  have f: "even (fst (calculateCanvasSize n))"
    unfolding calculateCanvasSize_def calculateCanvasSizeForFiles_total
    by (rule planCanvas_width_even)
  from a b c d e f show ?thesis by blast
qed

section \<open>The container cannot be built for a non-empty list\<close>

text \<open>
  The last write of every file header, \<^verbatim>\<open>headerView.setUint32(127, dataOffset, true)\<close>,
  needs the bytes 127 to 130 of a view of 128 bytes.
\<close>

lemma fileHeaderFor_fails: "fileHeaderFor f dataOffset = Inl RangeError"
  by (simp add: fileHeaderFor_def Let_def bindE_def setUint16_def array_set_def
      setUint8_def setUint32_def FILE_HEADER_SIZE_def)

lemma fileHeadersFor_fails: "fs \<noteq> [] \<Longrightarrow> fileHeadersFor fs dataOffset = Inl RangeError"
  by (cases fs) (simp_all add: fileHeaderFor_fails bindE_def)

lemma mainHeader_value:
  "mainHeader fileCount = Inr ([0x46, 0x32, 0x50, 0x31, 1, of_nat fileCount] @ replicate 58 0)"
proof -
  have "replicate HEADER_SIZE (0::u8) = [0, 0, 0, 0, 0, 0] @ replicate 58 0"
    unfolding HEADER_SIZE_def by (simp add: replicate_add [symmetric] del: replicate_Suc
        flip: replicate_Suc)
  then show ?thesis by (simp add: mainHeader_def bindE_def setUint8_def)
qed

lemma containerBuffer_fails: "files \<noteq> [] \<Longrightarrow> containerBuffer files = Inl RangeError"
proof -
  assume "files \<noteq> []"
  then have "take (min (length files) 255) files \<noteq> []" by (cases files) simp_all
  then show ?thesis
    by (simp add: containerBuffer_def Let_def mainHeader_value bindE_def fileHeadersFor_fails)
qed

lemma encodeFilesToCanvas_fails: "files \<noteq> [] \<Longrightarrow> encodeFilesToCanvas files = Inl RangeError"
  by (simp add: encodeFilesToCanvas_def containerBuffer_fails bindE_def)

text \<open>
  The writes that precede the failing one do what the layout says. The name field, written
  by the first two writes of the loop and read the way the decoder reads it, holds the
  first 100 bytes of the name; and the type that is encoded is never the empty string.
\<close>

lemma name_field_written_and_read:
  assumes n: "nameLength = min (length nameBytes) 100"
    and w: "bindE (setUint16 (replicate FILE_HEADER_SIZE 0) 0 nameLength)
              (\<lambda>h1. array_set h1 (take nameLength nameBytes) 2) = Inr h2"
  shows "getUint16 h2 0 = Inr nameLength
     \<and> array_view h2 2 (min 100 nameLength) = Inr (take 100 nameBytes)"
proof -
  from n have le: "nameLength \<le> 100" by simp
  from n have ln: "min (length nameBytes) nameLength = nameLength" by simp
  from n have ln2: "nameLength \<le> length nameBytes" by simp
  define h1 :: "u8 list" where
    "h1 = (replicate FILE_HEADER_SIZE 0)[0 := of_nat nameLength, 1 := of_nat (nameLength div 256)]"
  have l1: "length h1 = 128" by (simp add: h1_def FILE_HEADER_SIZE_def)
  have lt: "length (take nameLength nameBytes) = nameLength" using n by simp
  from w have h2: "h2 = take 2 h1 @ take nameLength nameBytes @ drop (2 + nameLength) h1"
    using le ln
    by (auto simp add: bindE_def setUint16_def array_set_def FILE_HEADER_SIZE_def h1_def lt
        split: if_splits)
  have t2: "take 2 h1 = [of_nat nameLength, 0]"
    using le by (simp add: h1_def FILE_HEADER_SIZE_def take_Suc_conv_app_nth numeral_2_eq_2)
  have u: "unat (of_nat nameLength :: u8) = nameLength"
    using le by (simp add: unat_of_nat)
  have len2: "length h2 = 128" using le ln by (simp add: h2 l1)
  have g: "getUint16 h2 0 = Inr nameLength"
    using len2 by (simp add: getUint16_def h2 t2 u)
  have "drop 2 h2 = take nameLength nameBytes @ drop (2 + nameLength) h1"
    by (simp add: h2 t2)
  then have "take nameLength (drop 2 h2) = take nameLength nameBytes"
    using ln2 by simp
  moreover have "take nameLength nameBytes = take 100 nameBytes"
    using n by (simp add: min_def)
  ultimately have "array_view h2 2 (min 100 nameLength) = Inr (take 100 nameBytes)"
    using le len2 by (simp add: array_view_def min_absorb2)
  with g show ?thesis by simp
qed

lemma TextEncoder_encode_nonempty: "s \<noteq> [] \<Longrightarrow> TextEncoder_encode s \<noteq> []"
  by (cases s) (simp_all add: TextEncoder_encode_def utf8_encode_cp_def)

lemma encoded_type_nonempty:
  "TextEncoder_encode
     (case ftype f of None \<Rightarrow> octet_stream | Some t \<Rightarrow> if t = [] then octet_stream else t)
   \<noteq> []"
  by (auto simp: TextEncoder_encode_nonempty octet_stream_def split: option.splits)

text \<open>
  C2 (the code departs from the claim). Building the container for the single file
  \<^verbatim>\<open>a.txt\<close> of type \<^verbatim>\<open>text/plain\<close> with the data 1, 2, 3 throws a
  \<^verbatim>\<open>RangeError\<close>: the write of the data offset at byte 127 leaves the 128-byte file
  header, while the write of the file size at byte 123 stays inside.
\<close>

theorem containerBuffer_one_file_RangeError:
  "containerBuffer
     [\<lparr>fname = map of_char ''a.txt'', ftype = Some (map of_char ''text/plain''),
       fdata = [1, 2, 3]\<rparr>] = Inl RangeError
   \<and> setUint32 (replicate FILE_HEADER_SIZE 0) 127 0 = Inl RangeError
   \<and> setUint32 (replicate FILE_HEADER_SIZE 0) 123 3 \<noteq> Inl RangeError"
proof -
  have "containerBuffer
     [\<lparr>fname = map of_char ''a.txt'', ftype = Some (map of_char ''text/plain''),
       fdata = [1, 2, 3]\<rparr>] = Inl RangeError"
    by (rule containerBuffer_fails) simp
  moreover have "setUint32 (replicate FILE_HEADER_SIZE 0) 127 0 = Inl RangeError"
    by (simp add: setUint32_def FILE_HEADER_SIZE_def)
  moreover have "setUint32 (replicate FILE_HEADER_SIZE 0) 123 3 \<noteq> Inl RangeError"
    by (simp add: setUint32_def FILE_HEADER_SIZE_def)
  ultimately show ?thesis by blast
qed

text \<open>
  C1 (the code departs from the claim). Encoding the two files \<^verbatim>\<open>a.txt\<close>
  (\<^verbatim>\<open>text/plain\<close>, data 1, 2, 3) and \<^verbatim>\<open>b.bin\<close>
  (\<^verbatim>\<open>application/octet-stream\<close>, no data) throws a \<^verbatim>\<open>RangeError\<close>; no canvas is
  produced from which the two files could be extracted.
\<close>

theorem encodeFilesToCanvas_two_files_RangeError:
  "encodeFilesToCanvas
     [\<lparr>fname = map of_char ''a.txt'', ftype = Some (map of_char ''text/plain''),
       fdata = [1, 2, 3]\<rparr>,
      \<lparr>fname = map of_char ''b.bin'', ftype = Some octet_stream, fdata = []\<rparr>]
   = Inl RangeError"
  by (rule encodeFilesToCanvas_fails) simp

text \<open>
  C9 (the code departs from the claim). Encoding one file whose name has 101 bytes (101
  times the letter a) throws a \<^verbatim>\<open>RangeError\<close>; no entry with the first 100 bytes
  of the name can be decoded from the result.
\<close>

theorem encodeFilesToCanvas_long_name_RangeError:
  "encodeFilesToCanvas [\<lparr>fname = replicate 101 97, ftype = None, fdata = [7]\<rparr>]
   = Inl RangeError"
  by (rule encodeFilesToCanvas_fails) simp

section \<open>Properties of the multi-file decoder\<close>

lemmas dataview_defs = getUint8_def getUint16_def getUint32_def array_view_def array_slice_def
  bindE_def HEADER_SIZE_def FILE_HEADER_SIZE_def

lemma extractLoop_done:
  "\<not> i < n \<Longrightarrow> extractLoop buf n i off files ps = Inr (files, ps)"
  by (subst extractLoop.simps) simp

lemma extractLoop_break:
  "length buf < off + FILE_HEADER_SIZE \<Longrightarrow> extractLoop buf n i off files ps = Inr (files, ps)"
  by (subst extractLoop.simps) simp

lemma extractLoop_step:
  "i < n \<Longrightarrow> off + FILE_HEADER_SIZE \<le> length buf \<Longrightarrow>
   extractLoop buf n i off files ps =
     (case readEntry buf n off of
        Inl e \<Rightarrow> Inl e
      | Inr None \<Rightarrow> extractLoop buf n (i + 1) off files ps
      | Inr (Some f) \<Rightarrow>
          extractLoop buf n (i + 1) (off + FILE_HEADER_SIZE) (files @ [f])
            (ps @ [of_nat (i + 1) / of_nat (n + 1)]))"
  by (subst extractLoop.simps) simp

lemma unat_u8_70 [simp]: "(unat (b :: u8) = 70) = (b = 70)"
  and unat_u8_50 [simp]: "(unat b = 50) = (b = 50)"
  and unat_u8_80 [simp]: "(unat b = 80) = (b = 80)"
  and unat_u8_49 [simp]: "(unat b = 49) = (b = 49)"
  and unat_u8_1 [simp]: "(unat b = Suc 0) = (b = 1)"
  and unat_u8_0 [simp]: "(unat b = 0) = (b = 0)"
  by (simp_all add: word_unat_eq_iff)




lemma extractLoop_stuck:
  "readEntry buf n off = Inr None \<Longrightarrow> extractLoop buf n i off files ps = Inr (files, ps)"
proof (induction "n - i" arbitrary: i)
  case 0
  then show ?case by (simp add: extractLoop_done)
next
  case (Suc k)
  then have i: "i < n" by simp
  show ?case
  proof (cases "length buf < off + FILE_HEADER_SIZE")
    case True
    then show ?thesis by (rule extractLoop_break)
  next
    case False
    from Suc have "extractLoop buf n (i + 1) off files ps = Inr (files, ps)" by simp
    with i False Suc.prems show ?thesis by (simp add: extractLoop_step)
  qed
qed

lemma extractLoop_result:
  "extractLoop buf n i off files ps = Inr (files', ps') \<Longrightarrow>
   \<exists>m. length files' = length files + m \<and> i + m \<le> max i n
      \<and> ps' = ps @ map (\<lambda>k. of_nat k / of_nat (n + 1)) [i + 1 ..< i + 1 + m]"
proof (induction buf n i off files ps rule: extractLoop.induct)
  case (1 buf n i off files ps)
  show ?case
  proof (cases "i < n \<and> off + FILE_HEADER_SIZE \<le> length buf")
    case False
    then have "extractLoop buf n i off files ps = Inr (files, ps)"
      by (auto simp: extractLoop_done extractLoop_break)
    with 1 show ?thesis by (intro exI [of _ 0]) simp
  next
    case True
    then have step: "\<not> length buf < off + FILE_HEADER_SIZE" "i < n" by simp_all
    show ?thesis
    proof (cases "readEntry buf n off")
      case (Inl e)
      with True 1(3) show ?thesis by (simp add: extractLoop_step)
    next
      case (Inr r)
      show ?thesis
      proof (cases r)
        case None
        with Inr have "extractLoop buf n i off files ps = Inr (files, ps)"
          by (simp add: extractLoop_stuck)
        with 1 show ?thesis by (intro exI [of _ 0]) simp
      next
        case (Some f)
        with Inr True 1(3) have
          "extractLoop buf n (i + 1) (off + FILE_HEADER_SIZE) (files @ [f])
            (ps @ [of_nat (i + 1) / of_nat (n + 1)]) = Inr (files', ps')"
          by (simp add: extractLoop_step)
        from 1(2) [OF step(2) step(1) Inr Some this] obtain m where
          m: "length files' = length (files @ [f]) + m" "i + 1 + m \<le> max (i + 1) n"
            "ps' = (ps @ [of_nat (i + 1) / of_nat (n + 1)])
                     @ map (\<lambda>k. of_nat k / of_nat (n + 1)) [i + 1 + 1 ..< i + 1 + 1 + m]"
          by blast
        have "[i + 1 ..< i + 1 + (m + 1)] = (i + 1) # [i + 1 + 1 ..< i + 1 + 1 + m]"
          by (simp add: upt_conv_Cons)
        with m step show ?thesis
          by (intro exI [of _ "m + 1"]) (simp del: upt_Suc)
      qed
    qed
  qed
qed

lemma extractFiles_progress:
  assumes "extractFiles buf = Inr (files, ps)"
  shows "files \<noteq> [] \<and> length files \<le> unat (buf ! 5)
     \<and> ps = map (\<lambda>k. of_nat k / of_nat (unat (buf ! 5) + 1)) [1 ..< length files + 1]"
proof -
  from assms obtain n where n: "getUint8 buf 5 = Inr n" "n \<noteq> 0"
    and l: "extractLoop buf n 0 HEADER_SIZE [] [] = Inr (files, ps)" and ne: "files \<noteq> []"
    by (auto simp: extractFiles_def bindE_def split: sum.splits if_splits)
  from n have n5: "n = unat (buf ! 5)" by (simp add: getUint8_def split: if_splits)
  from extractLoop_result [OF l] obtain m where
    "length files = m" "m \<le> n" "ps = map (\<lambda>k. of_nat k / of_nat (n + 1)) [1 ..< 1 + m]"
    by auto
  with ne n5 show ?thesis by (simp add: add.commute)
qed

lemma sorted_fractions:
  "sorted (map (\<lambda>k. of_nat k / of_nat (n + 1) :: rat) [a ..< b])"
proof -
  have "sorted_wrt (\<le>) [a ..< b]" by simp
  then have "sorted_wrt (\<lambda>x y. (of_nat x / of_nat (n + 1) :: rat) \<le> of_nat y / of_nat (n + 1)) [a ..< b]"
    by (rule sorted_wrt_mono_rel [rotated]) (simp add: divide_right_mono)
  then show ?thesis by (simp add: sorted_map)
qed

text \<open>Example buffers: containers as a decoder may receive them.\<close>

lemma extractFiles_one_entry:
  "extractFiles ([0x46, 0x32, 0x50, 0x31, 1, 1] @ replicate 58 0
      @ [1, 0, 97] @ replicate 120 0 @ [3, 0, 0, 0, 0]
      @ [0, 0, 0])
   = Inr ([\<lparr>ename = [97], etype = octet_stream, edata = [0, 0, 0]\<rparr>], [1 / 2])"
proof -
  define B :: "u8 list" where "B = [0x46, 0x32, 0x50, 0x31, 1, 1] @ replicate 58 0
      @ [1, 0, 97] @ replicate 120 0 @ [3, 0, 0, 0, 0] @ [0, 0, 0]"
  have len: "length B = 195" by (simp add: B_def)
  have hd: "getUint8 B 0 = Inr 0x46" "getUint8 B 1 = Inr 0x32" "getUint8 B 2 = Inr 0x50"
    "getUint8 B 3 = Inr 0x31" "getUint8 B 4 = Inr 1" "getUint8 B 5 = Inr 1"
    by (simp_all add: B_def getUint8_def)
  have e: "readEntry B 1 64
             = Inr (Some \<lparr>ename = [97], etype = octet_stream, edata = [0, 0, 0]\<rparr>)"
    by (simp add: B_def readEntry_def dataview_defs nth_append TextDecoder_decode_def Let_def)
  have "extractLoop B 1 0 64 [] []
          = Inr ([\<lparr>ename = [97], etype = octet_stream, edata = [0, 0, 0]\<rparr>], [1 / 2])"
    using e len by (simp add: extractLoop_step extractLoop_done FILE_HEADER_SIZE_def)
  then have "extractFiles B
          = Inr ([\<lparr>ename = [97], etype = octet_stream, edata = [0, 0, 0]\<rparr>], [1 / 2])"
    using hd by (simp add: extractFiles_def bindE_def HEADER_SIZE_def)
  then show ?thesis by (simp only: B_def)
qed

text \<open>
  C5 (the code departs from the claim). A container that declares two files: the first
  declares 255 bytes of data, which lie beyond the buffer; the second declares one byte at
  offset 0, which lies inside. Read at its own position the second header passes the
  check, but after the first is skipped the read position is not advanced, the same
  header is read again for the second index, and the call fails with "No valid files
  found in the image".
\<close>

theorem extractFiles_skip_keeps_read_position:
  "readEntry ([0x46, 0x32, 0x50, 0x31, 1, 2] @ replicate 58 0
      @ replicate 123 0 @ [255, 0, 0, 0, 0]
      @ replicate 123 0 @ [1, 0, 0, 0, 0]
      @ [0, 0, 0]) 2 (HEADER_SIZE + FILE_HEADER_SIZE)
     = Inr (Some \<lparr>ename = [], etype = octet_stream, edata = [0]\<rparr>)
   \<and> extractFiles ([0x46, 0x32, 0x50, 0x31, 1, 2] @ replicate 58 0
      @ replicate 123 0 @ [255, 0, 0, 0, 0]
      @ replicate 123 0 @ [1, 0, 0, 0, 0]
      @ [0, 0, 0]) = Inl NoValidFilesFound"
proof -
  define B :: "u8 list" where "B = [0x46, 0x32, 0x50, 0x31, 1, 2] @ replicate 58 0
      @ replicate 123 0 @ [255, 0, 0, 0, 0]
      @ replicate 123 0 @ [1, 0, 0, 0, 0] @ [0, 0, 0]"
  have len: "length B = 323" by (simp add: B_def)
  have hd: "getUint8 B 0 = Inr 0x46" "getUint8 B 1 = Inr 0x32" "getUint8 B 2 = Inr 0x50"
    "getUint8 B 3 = Inr 0x31" "getUint8 B 4 = Inr 1" "getUint8 B 5 = Inr 2"
    by (simp_all add: B_def getUint8_def)
  have e0: "readEntry B 2 64 = Inr None"
    by (simp add: B_def readEntry_def dataview_defs nth_append TextDecoder_decode_def Let_def)
  have e1: "readEntry B 2 (HEADER_SIZE + FILE_HEADER_SIZE)
              = Inr (Some \<lparr>ename = [], etype = octet_stream, edata = [0]\<rparr>)"
    by (simp add: B_def readEntry_def dataview_defs nth_append TextDecoder_decode_def Let_def)
  have "extractLoop B 2 0 64 [] [] = Inr ([], [])"
    using e0 len by (simp add: extractLoop_step extractLoop_done FILE_HEADER_SIZE_def)
  then have "extractFiles B = Inl NoValidFilesFound"
    using hd by (simp add: extractFiles_def bindE_def HEADER_SIZE_def)
  with e1 show ?thesis by (simp only: B_def)
qed

text \<open>
  The type of a file that is read: the default when the stored length is 0, the decoded
  bytes otherwise. Decoding yields the empty string for no bytes and for bytes that
  decode to the byte order mark alone.
\<close>

lemma utf8_decode_nonempty: "bs \<noteq> [] \<or> needed \<noteq> 0 \<Longrightarrow> utf8_decode cp seen needed lo hi bs \<noteq> []"
  by (induction cp seen needed lo hi bs rule: utf8_decode.induct) (auto split: if_splits)

lemma TextDecoder_decode_empty:
  "TextDecoder_decode bs = [] \<longleftrightarrow> bs = [] \<or> utf8_decode 0 0 0 0x80 0xBF bs = [0xFEFF]"
proof (cases "utf8_decode 0 0 0 0x80 0xBF bs")
  case Nil
  with utf8_decode_nonempty [of bs 0 0 0 "0x80" "0xBF"] show ?thesis
    by (auto simp: TextDecoder_decode_def)
next
  case (Cons c cs)
  then have "bs \<noteq> []" by auto
  with Cons show ?thesis by (auto simp: TextDecoder_decode_def)
qed

lemma octet_stream_nonempty: "octet_stream \<noteq> []"
  by (simp add: octet_stream_def)

lemma readEntry_type:
  assumes "readEntry buf n off = Inr (Some f)"
  shows "\<exists>m bs. getUint8 buf (off + 102) = Inr m
           \<and> array_view buf (off + 103) (min 20 m) = Inr bs
           \<and> etype f = (if 0 < m then TextDecoder_decode bs else octet_stream)"
  using assms
  by (auto simp: readEntry_def bindE_def Let_def split: sum.splits if_splits)

text \<open>
  The decoder yields the empty string for exactly two byte sequences: no bytes at all, and
  the three bytes of the byte order mark.
\<close>

lemma utf8_decode_head_cont:
  "needed \<noteq> 0 \<Longrightarrow> utf8_decode cp seen needed lo hi bs = [c] \<Longrightarrow>
   c = 0xFFFD \<or> (\<exists>b r. bs = b # r \<and> lo \<le> unat b \<and> unat b \<le> hi \<and>
      (if seen + 1 = needed then c = cp * 64 + unat b mod 64 \<and> r = []
       else utf8_decode (cp * 64 + unat b mod 64) (seen + 1) needed 0x80 0xBF r = [c]))"
proof (cases bs)
  case Nil
  assume "needed \<noteq> 0" "utf8_decode cp seen needed lo hi bs = [c]"
  with Nil show ?thesis by simp
next
  case (Cons b r)
  assume n: "needed \<noteq> 0" and d: "utf8_decode cp seen needed lo hi bs = [c]"
  show ?thesis
  proof (cases "unat b < lo \<or> hi < unat b")
    case True
    with n d Cons show ?thesis by simp
  next
    case False
    show ?thesis
    proof (cases "seen + 1 = needed")
      case True
      with n d Cons False have "c = cp * 64 + unat b mod 64"
        and "utf8_decode 0 0 0 0x80 0xBF r = []" by simp_all
      moreover from this(2) utf8_decode_nonempty [of r 0 0 0 "0x80" "0xBF"] have "r = []" by auto
      ultimately show ?thesis using Cons False True by auto
    next
      case F2: False
      with n d Cons False show ?thesis by auto
    qed
  qed
qed

lemma utf8_decode_last_byte:
  assumes "seen + 1 = needed" and "utf8_decode cp seen needed lo hi bs = [c]" and "c \<noteq> 0xFFFD"
  shows "\<exists>b. bs = [b] \<and> lo \<le> unat b \<and> unat b \<le> hi \<and> c = cp * 64 + unat b mod 64"
  using utf8_decode_head_cont [OF _ assms(2)] assms(1,3) by auto

lemma utf8_decode_next_byte:
  assumes "seen + 1 \<noteq> needed" and "needed \<noteq> 0"
    and "utf8_decode cp seen needed lo hi bs = [c]" and "c \<noteq> 0xFFFD"
  shows "\<exists>b r. bs = b # r \<and> lo \<le> unat b \<and> unat b \<le> hi
           \<and> utf8_decode (cp * 64 + unat b mod 64) (seen + 1) needed 0x80 0xBF r = [c]"
  using utf8_decode_head_cont [OF assms(2,3)] assms(1,4) by auto

lemma mod_in_range:
  fixes x :: nat
  assumes "lo \<le> x" and "x < lo + k" and "k dvd lo"
  shows "x mod k = x - lo"
proof -
  from assms(3) obtain c where c: "lo = k * c" by (auto elim: dvdE)
  from assms(1) obtain t where t: "x = lo + t" by (auto simp: le_iff_add)
  with assms(2) have "t < k" by simp
  then show ?thesis unfolding t c by simp
qed

lemma utf8_decode_bom:
  assumes "utf8_decode 0 0 0 0x80 0xBF bs = [0xFEFF]"
  shows "bs = [0xEF, 0xBB, 0xBF]"
proof (cases bs)
  case Nil
  with assms show ?thesis by simp
next
  case (Cons b r)
  define x where "x = unat b"
  have b: "b = of_nat x" by (simp add: x_def)
  consider (ascii) "x \<le> 0x7F" | (two) "0xC2 \<le> x \<and> x \<le> 0xDF" | (three) "0xE0 \<le> x \<and> x \<le> 0xEF"
    | (four) "0xF0 \<le> x \<and> x \<le> 0xF4"
    | (bad) "\<not> x \<le> 0x7F" "\<not> (0xC2 \<le> x \<and> x \<le> 0xDF)" "\<not> (0xE0 \<le> x \<and> x \<le> 0xEF)"
        "\<not> (0xF0 \<le> x \<and> x \<le> 0xF4)"
    by blast
  then show ?thesis
  proof cases
    case ascii
    with assms Cons show ?thesis by (simp add: x_def [symmetric])
  next
    case bad
    with assms Cons show ?thesis by (simp add: x_def [symmetric])
  next
    case two
    with assms Cons have d0: "utf8_decode (x mod 32) 0 1 0x80 0xBF r = [0xFEFF]"
      by (simp add: x_def [symmetric])
    have "\<exists>b1. r = [b1] \<and> 0x80 \<le> unat b1 \<and> unat b1 \<le> 0xBF
            \<and> 0xFEFF = x mod 32 * 64 + unat b1 mod 64"
      by (rule utf8_decode_last_byte [OF _ d0]) simp_all
    then obtain b1 :: u8 where "0xFEFF = x mod 32 * 64 + unat b1 mod 64" by blast
    moreover have "x mod 32 < 32" "unat b1 mod 64 < 64" by simp_all
    ultimately have False by linarith
    then show ?thesis ..
  next
    case three
    define lo :: nat where "lo = (if x = 0xE0 then 0xA0 else 0x80)"
    define hi :: nat where "hi = (if x = 0xED then 0x9F else 0xBF)"
    have lohi: "0x80 \<le> lo" "hi \<le> 0xBF" by (simp_all add: lo_def hi_def)
    from three assms Cons have d0: "utf8_decode (x mod 16) 0 2 lo hi r = [0xFEFF]"
      by (simp add: x_def [symmetric] lo_def hi_def)
    have "\<exists>b1 r1. r = b1 # r1 \<and> lo \<le> unat b1 \<and> unat b1 \<le> hi
            \<and> utf8_decode (x mod 16 * 64 + unat b1 mod 64) (0 + 1) 2 0x80 0xBF r1 = [0xFEFF]"
      by (rule utf8_decode_next_byte [OF _ _ d0]) simp_all
    then obtain b1 r1 where r: "r = b1 # r1"
      and lh: "lo \<le> unat b1" "unat b1 \<le> hi"
      and d1: "utf8_decode (x mod 16 * 64 + unat b1 mod 64) (0 + 1) 2 0x80 0xBF r1 = [0xFEFF]"
      by blast
    have "\<exists>b2. r1 = [b2] \<and> 0x80 \<le> unat b2 \<and> unat b2 \<le> 0xBF
            \<and> 0xFEFF = (x mod 16 * 64 + unat b1 mod 64) * 64 + unat b2 mod 64"
      by (rule utf8_decode_last_byte [OF _ d1]) simp_all
    then obtain b2 where r1: "r1 = [b2]"
      and v: "0xFEFF = (x mod 16 * 64 + unat b1 mod 64) * 64 + unat b2 mod 64"
      and b2: "0x80 \<le> unat b2" "unat b2 \<le> 0xBF"
      by blast
    define y where "y = unat b1"
    define z where "z = unat b2"
    have xm: "x mod 16 = x - 224" using three by (intro mod_in_range) simp_all
    have ym: "y mod 64 = y - 128" using lh lohi unfolding y_def by (intro mod_in_range) simp_all
    have zm: "z mod 64 = z - 128" using b2 unfolding z_def by (intro mod_in_range) simp_all
    define a p q where "a = x - 224" and "p = y - 128" and "q = z - 128"
    have bounds: "a < 16" "p < 64" "q < 64"
      using three lh lohi b2 by (auto simp: a_def p_def q_def y_def z_def)
    from v have "65279 = (a * 64 + p) * 64 + q"
      by (simp only: y_def [symmetric] z_def [symmetric] xm ym zm a_def p_def q_def)
    then have v': "65279 = a * 4096 + p * 64 + q" by simp
    with bounds have a: "a = 15" by arith
    with v' bounds have p: "p = 59" by arith
    with v' a have q: "q = 63" by arith
    from a three have x: "x = 0xEF" unfolding a_def by arith
    from p lh lohi have y: "y = 0xBB" unfolding p_def y_def by arith
    from q b2 have z: "z = 0xBF" unfolding q_def z_def by arith
    have "b = 0xEF" using x by (simp add: b)
    moreover have "b1 = 0xBB" using y unfolding y_def by (simp add: word_unat_eq_iff)
    moreover have "b2 = 0xBF" using z unfolding z_def by (simp add: word_unat_eq_iff)
    ultimately show ?thesis using Cons r r1 by simp
  next
    case four
    define lo :: nat where "lo = (if x = 0xF0 then 0x90 else 0x80)"
    define hi :: nat where "hi = (if x = 0xF4 then 0x8F else 0xBF)"
    have lohi: "0x80 \<le> lo" "hi \<le> 0xBF" by (simp_all add: lo_def hi_def)
    from four assms Cons have d0: "utf8_decode (x mod 8) 0 3 lo hi r = [0xFEFF]"
      by (simp add: x_def [symmetric] lo_def hi_def)
    have "\<exists>b1 r1. r = b1 # r1 \<and> lo \<le> unat b1 \<and> unat b1 \<le> hi
            \<and> utf8_decode (x mod 8 * 64 + unat b1 mod 64) (0 + 1) 3 0x80 0xBF r1 = [0xFEFF]"
      by (rule utf8_decode_next_byte [OF _ _ d0]) simp_all
    then obtain b1 :: u8 and r1 where lh: "lo \<le> unat b1" "unat b1 \<le> hi"
      and d1: "utf8_decode (x mod 8 * 64 + unat b1 mod 64) (0 + 1) 3 0x80 0xBF r1 = [0xFEFF]"
      by blast
    have "\<exists>b2 r2. r1 = b2 # r2 \<and> 0x80 \<le> unat b2 \<and> unat b2 \<le> 0xBF
            \<and> utf8_decode ((x mod 8 * 64 + unat b1 mod 64) * 64 + unat b2 mod 64) (0 + 1 + 1) 3
                 0x80 0xBF r2 = [0xFEFF]"
      by (rule utf8_decode_next_byte [OF _ _ d1]) simp_all
    then obtain b2 :: u8 and r2 where
      d2: "utf8_decode ((x mod 8 * 64 + unat b1 mod 64) * 64 + unat b2 mod 64) (0 + 1 + 1) 3
             0x80 0xBF r2 = [0xFEFF]"
      by blast
    have "\<exists>b3. r2 = [b3] \<and> 0x80 \<le> unat b3 \<and> unat b3 \<le> 0xBF
            \<and> 0xFEFF = ((x mod 8 * 64 + unat b1 mod 64) * 64 + unat b2 mod 64) * 64
                          + unat b3 mod 64"
      by (rule utf8_decode_last_byte [OF _ d2]) simp_all
    then obtain b3 :: u8 where
      v: "0xFEFF = ((x mod 8 * 64 + unat b1 mod 64) * 64 + unat b2 mod 64) * 64 + unat b3 mod 64"
      by blast
    define y where "y = unat b1"
    have xm: "x mod 8 = x - 240" using four by (intro mod_in_range) simp_all
    have ym: "y mod 64 = y - 128" using lh lohi unfolding y_def by (intro mod_in_range) simp_all
    define a p where "a = x - 240" and "p = y - 128"
    have "a \<noteq> 0 \<or> 16 \<le> p"
      using four lh unfolding lo_def a_def p_def y_def by (simp split: if_splits)
    then have "16 \<le> a * 64 + p" by auto
    moreover from v have "65279 = ((a * 64 + p) * 64 + unat b2 mod 64) * 64 + unat b3 mod 64"
      by (simp only: y_def [symmetric] xm ym a_def p_def)
    then have "65279 = a * 262144 + p * 4096 + unat b2 mod 64 * 64 + unat b3 mod 64" by simp
    ultimately have False by arith
    then show ?thesis ..
  qed
qed

lemma TextDecoder_decode_empty_bytes:
  "TextDecoder_decode bs = [] \<longleftrightarrow> bs = [] \<or> bs = [0xEF, 0xBB, 0xBF]"
proof -
  have "utf8_decode 0 0 0 0x80 0xBF [0xEF, 0xBB, 0xBF] = [0xFEFF]" by simp
  with utf8_decode_bom show ?thesis unfolding TextDecoder_decode_empty by blast
qed

text \<open>Every file returned was read from a file header of the buffer.\<close>

lemma extractLoop_files:
  "extractLoop buf n i off files ps = Inr (files', ps') \<Longrightarrow> e \<in> set files' \<Longrightarrow>
   e \<in> set files \<or> (\<exists>off'. readEntry buf n off' = Inr (Some e))"
proof (induction buf n i off files ps rule: extractLoop.induct)
  case (1 buf n i off files ps)
  show ?case
  proof (cases "i < n \<and> off + FILE_HEADER_SIZE \<le> length buf")
    case False
    then have "extractLoop buf n i off files ps = Inr (files, ps)"
      by (auto simp: extractLoop_done extractLoop_break)
    with 1(3,4) show ?thesis by simp
  next
    case True
    then have step: "\<not> length buf < off + FILE_HEADER_SIZE" "i < n" by simp_all
    show ?thesis
    proof (cases "readEntry buf n off")
      case (Inl err)
      with True 1(3) show ?thesis by (simp add: extractLoop_step)
    next
      case (Inr r)
      show ?thesis
      proof (cases r)
        case None
        with Inr True 1(3) have "extractLoop buf n (i + 1) off files ps = Inr (files', ps')"
          by (simp add: extractLoop_step)
        from 1(1) [OF step(2) step(1) Inr None this 1(4)] show ?thesis .
      next
        case (Some f)
        with Inr True 1(3) have
          "extractLoop buf n (i + 1) (off + FILE_HEADER_SIZE) (files @ [f])
            (ps @ [of_nat (i + 1) / of_nat (n + 1)]) = Inr (files', ps')"
          by (simp add: extractLoop_step)
        from 1(2) [OF step(2) step(1) Inr Some this 1(4)] Inr Some show ?thesis by auto
      qed
    qed
  qed
qed

lemma readEntry_type_bytes:
  assumes "readEntry buf n off = Inr (Some e)"
  shows "\<exists>m bs. getUint8 buf (off + 102) = Inr m
           \<and> array_view buf (off + 103) (min 20 m) = Inr bs \<and> length bs = min 20 m
           \<and> etype e = (if 0 < m then TextDecoder_decode bs else octet_stream)
           \<and> (etype e = [] \<longleftrightarrow> bs = [0xEF, 0xBB, 0xBF])"
proof -
  from readEntry_type [OF assms] obtain m bs where m: "getUint8 buf (off + 102) = Inr m"
    and bs: "array_view buf (off + 103) (min 20 m) = Inr bs"
    and ty: "etype e = (if 0 < m then TextDecoder_decode bs else octet_stream)" by blast
  from bs have len: "length bs = min 20 m"
    by (auto simp: array_view_def split: if_splits)
  have "etype e = [] \<longleftrightarrow> bs = [0xEF, 0xBB, 0xBF]"
  proof (cases "m = 0")
    case True
    with ty len show ?thesis by (auto simp: octet_stream_nonempty)
  next
    case False
    with len have "bs \<noteq> []" by auto
    with False ty show ?thesis by (simp add: TextDecoder_decode_empty_bytes)
  qed
  with m bs len ty show ?thesis by blast
qed

lemma extractFiles_typed_entry:
  "extractFiles ([0x46, 0x32, 0x50, 0x31, 1, 1] @ replicate 58 0
      @ replicate 102 0 @ [1, 0x78] @ replicate 24 0
      @ [0, 0, 0])
   = Inr ([\<lparr>ename = [], etype = [0x78], edata = []\<rparr>], [1 / 2])"
proof -
  define B :: "u8 list" where "B = [0x46, 0x32, 0x50, 0x31, 1, 1] @ replicate 58 0
      @ replicate 102 0 @ [1, 0x78] @ replicate 24 0 @ [0, 0, 0]"
  have len: "length B = 195" by (simp add: B_def)
  have hd: "getUint8 B 0 = Inr 0x46" "getUint8 B 1 = Inr 0x32" "getUint8 B 2 = Inr 0x50"
    "getUint8 B 3 = Inr 0x31" "getUint8 B 4 = Inr 1" "getUint8 B 5 = Inr 1"
    by (simp_all add: B_def getUint8_def)
  have e: "readEntry B 1 64 = Inr (Some \<lparr>ename = [], etype = [0x78], edata = []\<rparr>)"
    by (simp add: B_def readEntry_def dataview_defs nth_append TextDecoder_decode_def Let_def)
  have "extractLoop B 1 0 64 [] [] = Inr ([\<lparr>ename = [], etype = [0x78], edata = []\<rparr>], [1 / 2])"
    using e len by (simp add: extractLoop_step extractLoop_done FILE_HEADER_SIZE_def)
  then have "extractFiles B = Inr ([\<lparr>ename = [], etype = [0x78], edata = []\<rparr>], [1 / 2])"
    using hd by (simp add: extractFiles_def bindE_def HEADER_SIZE_def)
  then show ?thesis by (simp only: B_def)
qed

text \<open>
  C10, as the code has it. The bytes that the encoder takes for the type of a file are
  never empty, \<^verbatim>\<open>'application/octet-stream'\<close> standing for a missing or empty type.
  Every file that \<^verbatim>\<open>extractFilesFromCanvas\<close> returns was read from a file header
  of the buffer; its type is \<^verbatim>\<open>'application/octet-stream'\<close> when the stored length
  \<open>m\<close> of the type is 0, and the decoding of the \<open>min 20 m\<close> stored bytes otherwise. The
  type is the empty string in one case only: the stored bytes are EF BB BF, the byte order
  mark, which the decoder removes.
\<close>

theorem decoded_mime_type:
  assumes "extractFiles buf = Inr (files, ps)" and "e \<in> set files"
  shows "TextEncoder_encode
           (case ftype f of None \<Rightarrow> octet_stream | Some t \<Rightarrow> if t = [] then octet_stream else t)
         \<noteq> []
     \<and> (\<exists>off m bs. readEntry buf (unat (buf ! 5)) off = Inr (Some e)
           \<and> getUint8 buf (off + 102) = Inr m
           \<and> array_view buf (off + 103) (min 20 m) = Inr bs \<and> length bs = min 20 m
           \<and> etype e = (if 0 < m then TextDecoder_decode bs else octet_stream)
           \<and> (etype e = [] \<longleftrightarrow> bs = [0xEF, 0xBB, 0xBF]))"
proof -
  from assms(1) obtain n where n: "getUint8 buf 5 = Inr n"
    and l: "extractLoop buf n 0 HEADER_SIZE [] [] = Inr (files, ps)"
    by (auto simp: extractFiles_def bindE_def split: sum.splits if_splits)
  from n have n5: "n = unat (buf ! 5)" by (simp add: getUint8_def split: if_splits)
  from extractLoop_files [OF l assms(2)] obtain off where
    "readEntry buf (unat (buf ! 5)) off = Inr (Some e)" unfolding n5 by auto
  with readEntry_type_bytes [OF this] encoded_type_nonempty [of f] show ?thesis by blast
qed

theorem decoded_mime_type_witness:
  "extractFiles ([0x46, 0x32, 0x50, 0x31, 1, 1] @ replicate 58 0
      @ replicate 102 0 @ [1, 0x78] @ replicate 24 0 @ [0, 0, 0])
     = Inr ([\<lparr>ename = [], etype = [0x78], edata = []\<rparr>], [1 / 2])
   \<and> \<lparr>ename = [], etype = [0x78], edata = []\<rparr>
       \<in> set [\<lparr>ename = [], etype = [0x78 :: nat], edata = [] :: u8 list\<rparr>]
   \<and> (\<exists>off m bs.
         readEntry ([0x46, 0x32, 0x50, 0x31, 1, 1] @ replicate 58 0
             @ replicate 102 0 @ [1, 0x78] @ replicate 24 0 @ [0, 0, 0]) 1 off
           = Inr (Some \<lparr>ename = [], etype = [0x78], edata = []\<rparr>)
         \<and> getUint8 ([0x46, 0x32, 0x50, 0x31, 1, 1] @ replicate 58 0
             @ replicate 102 0 @ [1, 0x78] @ replicate 24 0 @ [0, 0, 0]) (off + 102) = Inr m
         \<and> 0 < m \<and> length bs = min 20 m \<and> TextDecoder_decode bs = [0x78]
         \<and> bs \<noteq> [0xEF, 0xBB, 0xBF])"
proof -
  define B :: "u8 list" where "B = [0x46, 0x32, 0x50, 0x31, 1, 1] @ replicate 58 0
      @ replicate 102 0 @ [1, 0x78] @ replicate 24 0 @ [0, 0, 0]"
  define e0 :: extracted where "e0 = \<lparr>ename = [], etype = [0x78], edata = []\<rparr>"
  have ex: "extractFiles B = Inr ([e0], [1 / 2])"
    unfolding B_def e0_def by (rule extractFiles_typed_entry)
  have mem: "e0 \<in> set [e0]" by simp
  have b5: "unat (B ! 5) = 1" by (simp add: B_def)
  from decoded_mime_type [OF ex mem] obtain off m bs where
    r: "readEntry B (unat (B ! 5)) off = Inr (Some e0)"
    and m: "getUint8 B (off + 102) = Inr m"
    and len: "length bs = min 20 m"
    and ty: "etype e0 = (if 0 < m then TextDecoder_decode bs else octet_stream)"
    and bom: "etype e0 = [] \<longleftrightarrow> bs = [0xEF, 0xBB, 0xBF]" by blast
  have "etype e0 \<noteq> octet_stream" by (simp add: e0_def octet_stream_def)
  with ty have t: "TextDecoder_decode bs = etype e0" and pos: "0 < m" by (auto split: if_splits)
  have ne: "etype e0 \<noteq> []" by (simp add: e0_def)
  with bom have nb: "bs \<noteq> [0xEF, 0xBB, 0xBF]" by simp
  have v: "etype e0 = [0x78]" by (simp add: e0_def)
  from r m pos len t nb have
    "\<exists>off m bs. readEntry B 1 off = Inr (Some e0) \<and> getUint8 B (off + 102) = Inr m
       \<and> 0 < m \<and> length bs = min 20 m \<and> TextDecoder_decode bs = [0x78]
       \<and> bs \<noteq> [0xEF, 0xBB, 0xBF]"
    unfolding b5 v by blast
  with ex mem have "extractFiles B = Inr ([e0], [1 / 2]) \<and> e0 \<in> set [e0]
     \<and> (\<exists>off m bs. readEntry B 1 off = Inr (Some e0) \<and> getUint8 B (off + 102) = Inr m
       \<and> 0 < m \<and> length bs = min 20 m \<and> TextDecoder_decode bs = [0x78]
       \<and> bs \<noteq> [0xEF, 0xBB, 0xBF])"
    by (intro conjI)
  then show ?thesis by (simp only: B_def e0_def)
qed

text \<open>
  A container with one file whose header stores a type of length 3, the three bytes being
  the byte order mark: the length is not 0, so the bytes are decoded, the decoder drops
  the mark, and the file is returned with the empty string as its type.
\<close>

theorem extractFiles_empty_mime_type:
  "extractFiles ([0x46, 0x32, 0x50, 0x31, 1, 1] @ replicate 58 0
      @ replicate 102 0 @ [3, 0xEF, 0xBB, 0xBF] @ replicate 22 0
      @ [0, 0, 0])
   = Inr ([\<lparr>ename = [], etype = [], edata = []\<rparr>], [1 / 2])"
proof -
  define B :: "u8 list" where "B = [0x46, 0x32, 0x50, 0x31, 1, 1] @ replicate 58 0
      @ replicate 102 0 @ [3, 0xEF, 0xBB, 0xBF] @ replicate 22 0 @ [0, 0, 0]"
  have len: "length B = 195" by (simp add: B_def)
  have hd: "getUint8 B 0 = Inr 0x46" "getUint8 B 1 = Inr 0x32" "getUint8 B 2 = Inr 0x50"
    "getUint8 B 3 = Inr 0x31" "getUint8 B 4 = Inr 1" "getUint8 B 5 = Inr 1"
    by (simp_all add: B_def getUint8_def)
  have e: "readEntry B 1 64 = Inr (Some \<lparr>ename = [], etype = [], edata = []\<rparr>)"
    by (simp add: B_def readEntry_def dataview_defs nth_append TextDecoder_decode_def Let_def)
  have "extractLoop B 1 0 64 [] [] = Inr ([\<lparr>ename = [], etype = [], edata = []\<rparr>], [1 / 2])"
    using e len by (simp add: extractLoop_step extractLoop_done FILE_HEADER_SIZE_def)
  then have "extractFiles B = Inr ([\<lparr>ename = [], etype = [], edata = []\<rparr>], [1 / 2])"
    using hd by (simp add: extractFiles_def bindE_def HEADER_SIZE_def)
  then show ?thesis by (simp only: B_def)
qed

section \<open>Single-file decoder: a grid that is too small\<close>

lemma headerLoop_unrolled:
  "headerLoop d 0 [] =
     [data_at d 0, data_at d 1, data_at d 2, data_at d 4, data_at d 5, data_at d 6,
      data_at d 8, data_at d 9, data_at d 10, data_at d 12, data_at d 13, data_at d 14,
      data_at d 16, data_at d 17, data_at d 18, data_at d 20, data_at d 21, data_at d 22,
      data_at d 24, data_at d 25, data_at d 26, data_at d 28, data_at d 29, data_at d 30,
      data_at d 32, data_at d 33, data_at d 34, data_at d 36, data_at d 37, data_at d 38,
      data_at d 40, data_at d 41]"
  by (simp add: headerLoop.simps LEGACY_HEADER_SIZE_def numeral_2_eq_2 [symmetric])

lemma declaredLength_value:
  "declaredLength c =
     Inr (unat (data_at (data c) 37) + 256 * unat (data_at (data c) 38)
          + 65536 * unat (data_at (data c) 40) + 16777216 * unat (data_at (data c) 41))"
  by (simp add: declaredLength_def readHeader_def headerLoop_unrolled getUint32_def
      LEGACY_HEADER_SIZE_def)

text \<open>
  On a grid with at least one pixel the check that rejects a declared length above the
  capacity is the first of the two, "Invalid data length in header". The second one,
  "Image does not contain enough data", can never fire: a length that passes the first
  check fits the grid together with the header.
\<close>

lemma length_readHeader: "length (readHeader d) = LEGACY_HEADER_SIZE"
  by (simp add: readHeader_def headerLoop_unrolled LEGACY_HEADER_SIZE_def)

lemma decodeFileFromCanvas_try_insufficient:
  assumes "declaredLength c = Inr n" and "width c * height c * 3 < n"
    and "width c \<noteq> 0" and "height c \<noteq> 0"
  shows "decodeFileFromCanvas_try c = Inl InvalidDataLength"
proof -
  from assms(2) have "int (width c * height c * 3) - int LEGACY_HEADER_SIZE < int n"
    by linarith
  with assms(1,3,4) show ?thesis
    by (simp add: decodeFileFromCanvas_try_def bindE_def Let_def getUint16_def
        length_readHeader LEGACY_HEADER_SIZE_def del: of_nat_mult)
qed

lemma ceil_div_capacity:
  assumes "\<not> int (w * h * 3) - int LEGACY_HEADER_SIZE < int n"
  shows "\<not> w * h < ceil_div (n + LEGACY_HEADER_SIZE) 3"
proof -
  from assms have "n + LEGACY_HEADER_SIZE \<le> w * h * 3" by linarith
  then show ?thesis by (simp add: ceil_div_def; arith)
qed

lemma decodeFileFromCanvas_try_never_NotEnoughData:
  "decodeFileFromCanvas_try c \<noteq> Inl NotEnoughData"
proof -
  have a: "getUint16 b k \<noteq> Inl NotEnoughData" for b k
    by (simp add: getUint16_def)
  have b: "declaredLength c \<noteq> Inl NotEnoughData"
    by (simp add: declaredLength_def getUint32_def)
  show ?thesis
    using a b ceil_div_capacity [of "width c" "height c"]
    by (auto simp add: decodeFileFromCanvas_try_def bindE_def Let_def
        simp del: of_nat_mult split: sum.splits prod.splits)
qed

text \<open>
  C8. Whenever the capacity \<open>width * height * 3\<close> of the pixel grid is smaller than
  the byte length that the header found in the grid declares, the single-file read
  (\<^verbatim>\<open>decodeFileFromCanvas\<close>) fails: the promise is rejected and no payload, truncated
  or not, is returned. The check that fires is the comparison of the declared length with
  the capacity less the header; every failure of this function reaches the caller as the
  same error.
\<close>

theorem decodeFileFromCanvas_insufficient:
  assumes "declaredLength c = Inr n" and "width c * height c * 3 < n"
  shows "decodeFileFromCanvas c = Inl FailedToDecode"
proof -
  from assms(2) have "int (width c * height c * 3) - int LEGACY_HEADER_SIZE < int n"
    by linarith
  with assms(1) have "isl (decodeFileFromCanvas_try c)"
    by (simp add: decodeFileFromCanvas_try_def bindE_def Let_def
        del: of_nat_mult split: sum.splits)
  then show ?thesis
    by (cases "decodeFileFromCanvas_try c") (simp_all add: decodeFileFromCanvas_def)
qed

theorem decodeFileFromCanvas_insufficient_witness:
  "declaredLength \<lparr>width = 4, height = 3, data = replicate 37 0 @ [100] @ replicate 10 0\<rparr>
     = Inr 100
   \<and> (4::nat) * 3 * 3 < 100
   \<and> decodeFileFromCanvas \<lparr>width = 4, height = 3, data = replicate 37 0 @ [100] @ replicate 10 0\<rparr>
     = Inl FailedToDecode"
proof -
  have d: "declaredLength \<lparr>width = 4, height = 3, data = replicate 37 0 @ [100] @ replicate 10 0\<rparr>
     = Inr 100"
    by (simp add: declaredLength_value data_at_def nth_append)
  from decodeFileFromCanvas_insufficient [OF d] d show ?thesis by simp
qed

section \<open>Pixel mapping of the single-file encoder\<close>

lemma length_data_put [simp]: "length (data_put d k v) = length d"
  by (simp add: data_put_def)

lemma data_put_nat:
  "data_put d (of_nat n) v = (if n < length d then d[n := of_nat (min v 255)] else d)"
  by (simp add: data_put_def)

lemma data_put_nat_other: "j \<noteq> n \<Longrightarrow> data_put d (of_nat n) v ! j = d ! j"
  by (simp add: data_put_nat)

lemma u8_of_unat_min [simp]: "of_nat (min (unat (x :: u8)) 255) = x"
proof -
  have "unat x < 2 ^ 8" using unsigned_less [of x, where ?'a = nat] by simp
  then have "min (unat x) 255 = unat x" by simp
  then show ?thesis by simp
qed

lemma pixelIndex_on_grid:
  "(of_nat (3 * k) / 3) * 4 = (of_nat (4 * k) :: rat)"
  "(of_nat (4 * k) :: rat) + 1 = of_nat (4 * k + 1)"
  "(of_nat (4 * k) :: rat) + 2 = of_nat (4 * k + 2)"
  "(of_nat (4 * k) :: rat) + 3 = of_nat (4 * k + 3)"
  by simp_all

lemma directPixel_on_grid:
  "4 * k + 3 < length d \<Longrightarrow>
   directPixel combined (3 * k) d
     = d[4 * k := byte_at combined (3 * k), 4 * k + 1 := byte_at combined (3 * k + 1),
         4 * k + 2 := byte_at combined (3 * k + 2), 4 * k + 3 := 255]"
proof -
  assume a: "4 * k + 3 < length d"
  have z: "(of_nat (min 255 255) :: u8) = 255" by simp
  show ?thesis
    unfolding directPixel_def Let_def pixelIndex_on_grid data_put_nat
    using a by (simp add: z)
qed

lemma length_directPixel [simp]: "length (directPixel combined i d) = length d"
  by (simp add: directPixel_def Let_def)

lemma data_put_nat_below: "j < n \<Longrightarrow> data_put d (of_nat n) v ! j = d ! j"
  by (simp add: data_put_nat)

lemma directPixel_frame:
  assumes "j < 4 * k"
  shows "directPixel combined (3 * k) d ! j = d ! j"
proof -
  from assms have "j < 4 * k + 1" "j < 4 * k + 2" "j < 4 * k + 3" by simp_all
  with assms show ?thesis
    unfolding directPixel_def Let_def pixelIndex_on_grid
    by (simp only: data_put_nat_below simp_thms)
qed

lemma length_directLoop [simp]: "length (directLoop combined i e d) = length d"
proof (induction combined i e d rule: directLoop.induct)
  case (1 combined i e d)
  then show ?case by (subst directLoop.simps) simp
qed

lemma directLoop_frame:
  "3 dvd i \<Longrightarrow> j < 4 * (i div 3) \<Longrightarrow> directLoop combined i e d ! j = d ! j"
proof (induction combined i e d rule: directLoop.induct)
  case (1 combined i e d)
  show ?case
  proof (cases "i < e")
    case False
    then show ?thesis by (subst directLoop.simps) simp
  next
    case True
    from 1(2) obtain k where k: "i = 3 * k" by (auto elim: dvdE)
    have "3 dvd i + 3" using 1(2) by simp
    moreover have "j < 4 * ((i + 3) div 3)" using 1(3) k by simp
    ultimately have "directLoop combined (i + 3) e (directPixel combined i d) ! j
        = directPixel combined i d ! j"
      using 1(1) [OF True] by simp
    also have "\<dots> = d ! j" using 1(3) k by (simp add: directPixel_frame)
    finally show ?thesis using True by (subst directLoop.simps) simp
  qed
qed

lemma directLoop_nth:
  "3 dvd i \<Longrightarrow> 4 * ceil_div e 3 \<le> length d \<Longrightarrow> 4 * (i div 3) \<le> n \<Longrightarrow> n < 4 * ceil_div e 3 \<Longrightarrow>
   directLoop combined i e d ! n
     = (if n mod 4 = 3 then 255 else byte_at combined (3 * (n div 4) + n mod 4))"
proof (induction combined i e d rule: directLoop.induct)
  case (1 combined i e d)
  from 1(2) obtain k where k: "i = 3 * k" by (auto elim: dvdE)
  show ?case
  proof (cases "i < e")
    case False
    with k have "ceil_div e 3 \<le> k" by (simp add: ceil_div_def; arith)
    with 1(4,5) k show ?thesis by simp
  next
    case True
    with k have kc: "k < ceil_div e 3" by (simp add: ceil_div_def; arith)
    with 1(3) have grid: "4 * k + 3 < length d" by simp
    have unfold: "directLoop combined i e d = directLoop combined (i + 3) e (directPixel combined i d)"
      using True by (subst directLoop.simps) simp
    have dv: "3 dvd i + 3" using 1(2) by simp
    show ?thesis
    proof (cases "n < 4 * k + 4")
      case True
      then have "n < 4 * ((i + 3) div 3)" using k by simp
      then have "directLoop combined i e d ! n = directPixel combined i d ! n"
        unfolding unfold using dv by (rule directLoop_frame [rotated])
      also have "\<dots> = (if n mod 4 = 3 then 255 else byte_at combined (3 * (n div 4) + n mod 4))"
      proof -
        from True 1(4) k have "n = 4 * k \<or> n = 4 * k + 1 \<or> n = 4 * k + 2 \<or> n = 4 * k + 3"
          by (simp; arith)
        then consider (c0) "n = 4 * k" | (c1) "n = 4 * k + 1" | (c2) "n = 4 * k + 2"
          | (c3) "n = 4 * k + 3" by blast
        then show ?thesis
        proof cases
          case c0
          then have "n div 4 = k" "n mod 4 = 0" by presburger+
          with c0 grid show ?thesis by (simp add: k directPixel_on_grid)
        next
          case c1
          then have "n div 4 = k" "n mod 4 = 1" by presburger+
          with c1 grid show ?thesis by (simp add: k directPixel_on_grid)
        next
          case c2
          then have "n div 4 = k" "n mod 4 = 2" by presburger+
          with c2 grid show ?thesis by (simp add: k directPixel_on_grid)
        next
          case c3
          then have "n div 4 = k" "n mod 4 = 3" by presburger+
          with c3 grid show ?thesis by (simp add: k directPixel_on_grid)
        qed
      qed
      finally show ?thesis .
    next
      case False
      then have "4 * ((i + 3) div 3) \<le> n" using k by simp
      with 1(1) [OF \<open>i < e\<close> dv] 1(3,5) show ?thesis unfolding unfold by simp
    qed
  qed
qed

lemma directLoop_above:
  "3 dvd i \<Longrightarrow> 4 * ceil_div e 3 \<le> n \<Longrightarrow> directLoop combined i e d ! n = d ! n"
proof (induction combined i e d rule: directLoop.induct)
  case (1 combined i e d)
  show ?case
  proof (cases "i < e")
    case False
    then show ?thesis by (subst directLoop.simps) simp
  next
    case True
    from 1(2) obtain k where k: "i = 3 * k" by (auto elim: dvdE)
    with True have "k < ceil_div e 3" by (simp add: ceil_div_def; arith)
    with 1(3) have n: "n \<noteq> 4 * k" "n \<noteq> 4 * k + 1" "n \<noteq> 4 * k + 2" "n \<noteq> 4 * k + 3" by simp_all
    have "3 dvd i + 3" using 1(2) by simp
    with 1(1) [OF True] 1(3) have "directLoop combined (i + 3) e (directPixel combined i d) ! n
        = directPixel combined i d ! n" by simp
    also have "\<dots> = d ! n"
      unfolding k directPixel_def Let_def pixelIndex_on_grid
      using n by (simp only: data_put_nat_other simp_thms)
    finally show ?thesis using True by (subst directLoop.simps) simp
  qed
qed

lemma legacyHeader_ok:
  "\<exists>h. legacyHeader n f m = Inr h \<and> length h = LEGACY_HEADER_SIZE"
  by (simp add: legacyHeader_def Let_def bindE_def setUint16_def array_set_def array_slice_def
      setUint32_def LEGACY_HEADER_SIZE_def)

lemma directChunks_single:
  "combined \<noteq> [] \<Longrightarrow> length combined \<le> CHUNK_SIZE \<Longrightarrow>
   directChunks combined 0 d [] = (directLoop combined 0 (length combined) d, [1])"
  by (subst directChunks.simps) (simp add: Let_def min_def)

text \<open>
  C3, as the code has it. The single-file encoder (\<^verbatim>\<open>encodeFileToCanvas\<close>) writes
  its buffer, the 32-byte header followed by the file data, three bytes to a pixel: as
  long as the buffer has at most \<open>CHUNK_SIZE\<close> bytes, byte \<open>i\<close> is stored unchanged in
  channel \<open>i mod 3\<close> of pixel \<open>i div 3\<close>, and the alpha channel of every pixel that holds
  a byte of the buffer is 255.
\<close>

theorem encodeFileToCanvas_direct_mapping:
  assumes "length arrayBuffer + LEGACY_HEADER_SIZE \<le> CHUNK_SIZE"
  shows "\<exists>header c ps.
     combinedBuffer arrayBuffer filename mimeType = Inr (header @ arrayBuffer)
     \<and> length header = LEGACY_HEADER_SIZE
     \<and> encodeFileToCanvas arrayBuffer filename mimeType = Inr (c, ps)
     \<and> (\<forall>i < length (header @ arrayBuffer).
           data c ! (4 * (i div 3) + i mod 3) = (header @ arrayBuffer) ! i)
     \<and> (\<forall>p. 3 * p < length (header @ arrayBuffer) \<longrightarrow> data c ! (4 * p + 3) = 255)"
proof -
  from legacyHeader_ok obtain header where
    h: "legacyHeader (length arrayBuffer) filename mimeType = Inr header"
    and lh: "length header = LEGACY_HEADER_SIZE" by blast
  define combined where "combined = header @ arrayBuffer"
  define L where "L = length combined"
  have cb: "combinedBuffer arrayBuffer filename mimeType = Inr combined"
    by (simp add: combinedBuffer_def h bindE_def combined_def)
  have L: "L = length arrayBuffer + LEGACY_HEADER_SIZE" by (simp add: L_def combined_def lh)
  have Lpos: "0 < L" by (simp add: L LEGACY_HEADER_SIZE_def)
  obtain w h' where wh: "calculateCanvasSize_legacy (length arrayBuffer) = (w, h')"
    by (cases "calculateCanvasSize_legacy (length arrayBuffer)")
  define d0 :: "u8 list" where "d0 = replicate (w * h' * 4) 0"
  have "ceil_div L 3 \<le> w * h'"
    using planCanvas_pixels [OF Lpos] wh by (simp add: calculateCanvasSize_legacy_def L)
  then have room: "4 * ceil_div L 3 \<le> length d0" by (simp add: d0_def)
  define c where "c = \<lparr>width = w, height = h', data = directLoop combined 0 L d0\<rparr>"
  have ne: "combined \<noteq> []" using Lpos by (simp add: L_def)
  have enc: "encodeFileToCanvas arrayBuffer filename mimeType = Inr (c, [1])"
    using assms ne
    by (simp add: encodeFileToCanvas_def wh cb directChunks_single L [symmetric] L_def
        d0_def c_def)
  have bytes: "data c ! (4 * (i div 3) + i mod 3) = combined ! i" if "i < L" for i
  proof -
    let ?n = "4 * (i div 3) + i mod 3"
    from that have "i div 3 < ceil_div L 3" by (simp add: ceil_div_def; arith)
    then have lt: "?n < 4 * ceil_div L 3" by (simp; arith)
    have "i mod 3 < 4" by (rule less_trans [of _ 3]) simp_all
    then have m: "?n mod 4 = i mod 3" "?n div 4 = i div 3" by simp_all
    have "directLoop combined 0 L d0 ! ?n
            = (if ?n mod 4 = 3 then 255 else byte_at combined (3 * (?n div 4) + ?n mod 4))"
      by (rule directLoop_nth [OF _ room _ lt]) simp_all
    also have "\<dots> = byte_at combined i"
    proof -
      have "i mod 3 \<noteq> 3" using mod_less_divisor [of 3 i] by linarith
      then show ?thesis unfolding m by simp
    qed
    also have "\<dots> = combined ! i" using that by (simp add: byte_at_def L_def)
    finally show ?thesis by (simp add: c_def)
  qed
  have alpha: "data c ! (4 * p + 3) = 255" if "3 * p < L" for p
  proof -
    from that have "p < ceil_div L 3" by (simp add: ceil_div_def; arith)
    then have lt: "4 * p + 3 < 4 * ceil_div L 3" by simp
    have m: "(4 * p + 3) mod 4 = 3" by simp
    have "directLoop combined 0 L d0 ! (4 * p + 3)
            = (if (4 * p + 3) mod 4 = 3 then 255
               else byte_at combined (3 * ((4 * p + 3) div 4) + (4 * p + 3) mod 4))"
      by (rule directLoop_nth [OF _ room _ lt]) simp_all
    then show ?thesis unfolding m by (simp add: c_def)
  qed
  have "combinedBuffer arrayBuffer filename mimeType = Inr (header @ arrayBuffer)
     \<and> length header = LEGACY_HEADER_SIZE
     \<and> encodeFileToCanvas arrayBuffer filename mimeType = Inr (c, [1])
     \<and> (\<forall>i < length (header @ arrayBuffer).
           data c ! (4 * (i div 3) + i mod 3) = (header @ arrayBuffer) ! i)
     \<and> (\<forall>p. 3 * p < length (header @ arrayBuffer) \<longrightarrow> data c ! (4 * p + 3) = 255)"
    using cb lh enc bytes alpha by (simp add: combined_def L_def)
  then show ?thesis by blast
qed

theorem encodeFileToCanvas_direct_mapping_witness:
  "length [7 :: u8] + LEGACY_HEADER_SIZE \<le> CHUNK_SIZE
   \<and> data (fst (projr (encodeFileToCanvas [7] [] []))) ! (4 * (32 div 3) + 32 mod 3) = 7
   \<and> data (fst (projr (encodeFileToCanvas [7] [] []))) ! (4 * 10 + 3) = 255"
proof -
  have h: "length [7 :: u8] + LEGACY_HEADER_SIZE \<le> CHUNK_SIZE"
    by (simp add: LEGACY_HEADER_SIZE_def CHUNK_SIZE_def)
  from encodeFileToCanvas_direct_mapping [OF h, of "[]" "[]"] obtain header c ps where
    lh: "length header = LEGACY_HEADER_SIZE"
    and enc: "encodeFileToCanvas [7] [] [] = Inr (c, ps)"
    and bytes: "\<forall>i < length (header @ [7 :: u8]).
           data c ! (4 * (i div 3) + i mod 3) = (header @ [7]) ! i"
    and alpha: "\<forall>p. 3 * p < length (header @ [7 :: u8]) \<longrightarrow> data c ! (4 * p + 3) = 255"
    by blast
  from lh have l: "length (header @ [7 :: u8]) = 33" by (simp add: LEGACY_HEADER_SIZE_def)
  from lh have v: "(header @ [7 :: u8]) ! 32 = 7" by (simp add: LEGACY_HEADER_SIZE_def nth_append)
  have "(32 :: nat) < length (header @ [7 :: u8])" unfolding l by simp
  with bytes have b: "data c ! (4 * (32 div 3) + 32 mod 3) = (header @ [7]) ! 32" by blast
  have "(3 :: nat) * 10 < length (header @ [7 :: u8])" unfolding l by simp
  with alpha have a: "data c ! (4 * 10 + 3) = 255" by blast
  from a b v have "data c ! (4 * (32 div 3) + 32 mod 3) = 7 \<and> data c ! (4 * 10 + 3) = 255"
    by (simp only:)
  with h show ?thesis unfolding enc by (simp only: sum.sel fst_conv simp_thms)
qed

text \<open>
  Buffers of more than one chunk. \<open>CHUNK_SIZE\<close> is not a multiple of 3, so the second
  chunk starts at an \<open>i\<close> for which \<^verbatim>\<open>(i / 3) * 4\<close> is not an integer, and every
  write of that chunk is ignored.
\<close>

lemma off_grid_index:
  assumes "\<not> 3 dvd i"
  shows "of_int z \<noteq> (of_nat i / 3 * 4 + of_nat r :: rat)"
proof
  assume "of_int z = (of_nat i / 3 * 4 + of_nat r :: rat)"
  then have "(of_int (3 * z) :: rat) = of_int (4 * int i + 3 * int r)" by simp
  then have "3 * z = 4 * int i + 3 * int r" by (simp only: of_int_eq_iff)
  then have "int i = 3 * (z - int i - int r)" by simp
  then have "3 dvd int i" by (rule dvdI)
  then have "3 dvd i" by presburger
  with assms show False by contradiction
qed

lemma data_put_off_grid:
  "\<not> 3 dvd i \<Longrightarrow> data_put d (of_nat i / 3 * 4 + of_nat r) v = d"
  using off_grid_index [of i "\<lfloor>of_nat i / 3 * 4 + of_nat r :: rat\<rfloor>" r]
  by (simp add: data_put_def)

lemma directPixel_off_grid: "\<not> 3 dvd i \<Longrightarrow> directPixel combined i d = d"
  using data_put_off_grid [of i d 0] data_put_off_grid [of i d 1]
    data_put_off_grid [of i d 2] data_put_off_grid [of i d 3]
  by (simp add: directPixel_def Let_def)

lemma directLoop_off_grid: "\<not> 3 dvd i \<Longrightarrow> directLoop combined i e d = d"
proof (induction combined i e d rule: directLoop.induct)
  case (1 combined i e d)
  from 1(2) have "\<not> 3 dvd i + 3" by presburger
  with 1 show ?case by (subst directLoop.simps) (simp add: directPixel_off_grid)
qed

lemma second_chunk_writes_nothing: "directLoop combined CHUNK_SIZE e d = d"
  by (rule directLoop_off_grid) (simp add: CHUNK_SIZE_def)

section \<open>Pixel mapping of the multi-file encoder\<close>

text \<open>
  Iteration \<open>i\<close> of the loop of \<^verbatim>\<open>encodeBufferToCanvas\<close> writes the four channels
  of pixel \<open>i\<close> only.
\<close>

lemma packPixel_frame:
  assumes "j < 4 * i"
  shows "packPixel buffer i d ! j = d ! j"
proof (cases "i * 3 div 4 + 1 < length buffer")
  case False
  then show ?thesis by (simp add: packPixel_def Let_def)
next
  case True
  from assms have "j < i * 4" "j < i * 4 + 1" "j < i * 4 + 2" "j < i * 4 + 3" by simp_all
  then show ?thesis
    unfolding packPixel_def Let_def if_P [OF True] by (simp only: data_put_nat_below)
qed

lemma packLoop_frame: "j < 4 * i \<Longrightarrow> packLoop buffer i e d ! j = d ! j"
proof (induction buffer i e d rule: packLoop.induct)
  case (1 buffer i e d)
  show ?case
  proof (cases "of_nat i < e")
    case False
    then show ?thesis by (subst packLoop.simps) simp
  next
    case True
    from 1(2) have "j < 4 * (i + 1)" by simp
    with 1(1) [OF True] have "packLoop buffer (i + 1) e (packPixel buffer i d) ! j
        = packPixel buffer i d ! j" by simp
    also have "\<dots> = d ! j" using 1(2) by (rule packPixel_frame)
    finally show ?thesis using True by (subst packLoop.simps) simp
  qed
qed

lemma calculateCanvasSize_64: "calculateCanvasSize 64 = (10, 9)"
  by code_simp

lemma calculateCanvasSize_legacy_1: "calculateCanvasSize_legacy 1 = (4, 3)"
  by code_simp

lemma containerBuffer_empty:
  "containerBuffer [] = Inr ([0x46, 0x32, 0x50, 0x31, 1, 0] @ replicate 58 0, [])"
  by (simp add: containerBuffer_def mainHeader_value bindE_def)

lemma encodeBufferToCanvas_empty_container:
  "data (fst (encodeBufferToCanvas ([0x46, 0x32, 0x50, 0x31, 1, 0] @ replicate 58 0))) ! 0 = 51"
proof -
  define B :: "u8 list" where "B = [0x46, 0x32, 0x50, 0x31, 1, 0] @ replicate 58 0"
  define d0 :: "u8 list" where "d0 = replicate 360 0"
  have len: "length B = 64" by (simp add: B_def)
  have b01: "B ! 0 = 0x46" "B ! 1 = 0x32" by (simp_all add: B_def)
  have chunks: "packChunks B 0 d0 [] = (packLoop B 0 (256 / 3) d0, [1])"
    by (subst packChunks.simps) (simp add: Let_def len CHUNK_SIZE_def)
  have "packLoop B 0 (256 / 3) d0 = packLoop B 1 (256 / 3) (packPixel B 0 d0)"
    by (subst packLoop.simps) simp
  then have "packLoop B 0 (256 / 3) d0 ! 0 = packPixel B 0 d0 ! 0"
    by (simp add: packLoop_frame)
  also have "\<dots> = 51"
    using b01 by (simp add: packPixel_def Let_def data_put_def len d0_def)
  finally have r: "packLoop B 0 (256 / 3) d0 ! 0 = 51" .
  have "encodeBufferToCanvas B
          = (\<lparr>width = 10, height = 9, data = packLoop B 0 (256 / 3) d0\<rparr>, [1])"
    by (simp add: encodeBufferToCanvas_def len calculateCanvasSize_64 d0_def [symmetric] chunks)
  with r have "data (fst (encodeBufferToCanvas B)) ! 0 = 51" by simp
  then show ?thesis by (simp only: B_def)
qed

lemma encodeFileToCanvas_one_byte:
  "width (fst (projr (encodeFileToCanvas [7] [] []))) = 4
   \<and> height (fst (projr (encodeFileToCanvas [7] [] []))) = 3
   \<and> data (fst (projr (encodeFileToCanvas [7] [] []))) ! (4 * 11 + 3) = 0"
proof -
  from legacyHeader_ok obtain header where
    h: "legacyHeader (length [7 :: u8]) [] [] = Inr header"
    and lh: "length header = LEGACY_HEADER_SIZE" by blast
  define combined where "combined = header @ [7 :: u8]"
  have len: "length combined = 33" by (simp add: combined_def lh LEGACY_HEADER_SIZE_def)
  then have ne: "combined \<noteq> []" by auto
  have cb: "combinedBuffer [7] [] [] = Inr combined"
    using h by (simp add: combinedBuffer_def bindE_def combined_def)
  have small: "length combined \<le> CHUNK_SIZE" by (simp add: len CHUNK_SIZE_def)
  have enc: "encodeFileToCanvas [7] [] []
      = Inr (\<lparr>width = 4, height = 3, data = directLoop combined 0 33 (replicate 48 0)\<rparr>, [1])"
    using calculateCanvasSize_legacy_1
    by (simp add: encodeFileToCanvas_def cb directChunks_single [OF ne small] len)
  have "4 * ceil_div 33 3 \<le> (47 :: nat)" by (simp add: ceil_div_def)
  then have "directLoop combined 0 33 (replicate 48 0) ! 47 = replicate 48 (0 :: u8) ! 47"
    by (intro directLoop_above) simp_all
  then show ?thesis by (simp add: enc)
qed

text \<open>
  Two inputs at which the mapping is not the one of three bytes to a pixel with an opaque
  alpha channel everywhere. The container of the empty list of files starts with the byte
  46 (hexadecimal), and the multi-file encoder stores 51 in the red channel of pixel 0:
  it spreads six bits over the three channels of each pixel. The single-file encoder,
  given one byte of data, fills a canvas of 4 by 3 pixels and leaves the alpha channel of
  the last pixel, which holds no byte of the buffer, at 0.
\<close>

theorem pixel_mapping_counterexample:
  "containerBuffer [] = Inr ([0x46, 0x32, 0x50, 0x31, 1, 0] @ replicate 58 0, [])
   \<and> ([0x46, 0x32, 0x50, 0x31, 1, 0] @ replicate 58 (0 :: u8)) ! 0 = 0x46
   \<and> data (fst (encodeBufferToCanvas ([0x46, 0x32, 0x50, 0x31, 1, 0] @ replicate 58 0))) ! 0 = 51
   \<and> width (fst (projr (encodeFileToCanvas [7] [] []))) = 4
   \<and> height (fst (projr (encodeFileToCanvas [7] [] []))) = 3
   \<and> data (fst (projr (encodeFileToCanvas [7] [] []))) ! (4 * 11 + 3) = 0"
  using containerBuffer_empty encodeBufferToCanvas_empty_container encodeFileToCanvas_one_byte
  by simp

section \<open>Progress reports\<close>

lemma fraction_below_one: "m \<le> n \<Longrightarrow> (of_nat m :: rat) / of_nat (n + 1) < 1"
  by simp

lemma packChunks_progress:
  "buffer \<noteq> [] \<Longrightarrow> sorted ps \<Longrightarrow>
   (\<forall>p\<in>set ps. p \<le> min (of_nat (start + CHUNK_SIZE)) (of_nat (length buffer) * 8 / 6)
                      / (of_nat (length buffer) * 8 / 6)) \<Longrightarrow>
   sorted (snd (packChunks buffer start d ps)) \<and> snd (packChunks buffer start d ps) \<noteq> []
     \<and> last (snd (packChunks buffer start d ps)) = 1"
proof (induction buffer start d ps rule: packChunks.induct)
  case (1 buffer start d ps)
  define bound :: rat where "bound = of_nat (length buffer) * 8 / 6"
  define e where "e = min (of_nat (start + CHUNK_SIZE)) bound"
  define d' where "d' = packLoop buffer start e d"
  define ps' where "ps' = ps @ [e / bound]"
  have bpos: "0 < bound" using 1(2) by (simp add: bound_def)
  have sps': "sorted ps'" using 1(3,4)
    by (simp add: ps'_def sorted_append e_def bound_def)
  have unfold: "packChunks buffer start d ps
      = (if e < bound then packChunks buffer (start + CHUNK_SIZE) d' ps' else (d', ps'))"
    by (subst packChunks.simps) (simp add: Let_def bound_def e_def d'_def ps'_def)
  show ?case
  proof (cases "e < bound")
    case True
    then have e: "e = of_nat (start + CHUNK_SIZE)" by (simp add: e_def min_def split: if_splits)
    have "e \<le> min (of_nat (start + CHUNK_SIZE + CHUNK_SIZE)) bound"
      using True e by simp
    then have le: "e / bound \<le> min (of_nat (start + CHUNK_SIZE + CHUNK_SIZE)) bound / bound"
      using bpos by (simp add: divide_right_mono)
    have "\<forall>p\<in>set ps'. p \<le> min (of_nat (start + CHUNK_SIZE + CHUNK_SIZE)) bound / bound"
    proof
      fix p assume "p \<in> set ps'"
      then have "p \<le> e / bound" using 1(4) by (auto simp: ps'_def e_def bound_def)
      with le show "p \<le> min (of_nat (start + CHUNK_SIZE + CHUNK_SIZE)) bound / bound" by simp
    qed
    with 1(1) [OF bound_def e_def d'_def ps'_def True 1(2) sps'] True unfold
    show ?thesis by (simp add: bound_def)
  next
    case False
    then have "e = bound" by (simp add: e_def min_def split: if_splits)
    with False unfold sps' bpos show ?thesis by (simp add: ps'_def)
  qed
qed

lemma encodeBufferToCanvas_progress:
  assumes "arrayBuffer \<noteq> []"
  shows "sorted (snd (encodeBufferToCanvas arrayBuffer))
     \<and> snd (encodeBufferToCanvas arrayBuffer) \<noteq> []
     \<and> last (snd (encodeBufferToCanvas arrayBuffer)) = 1"
proof -
  obtain w h where wh: "calculateCanvasSize (length arrayBuffer) = (w, h)"
    by (cases "calculateCanvasSize (length arrayBuffer)")
  have "snd (encodeBufferToCanvas arrayBuffer)
          = snd (packChunks arrayBuffer 0 (replicate (w * h * 4) 0) [])"
    by (simp add: encodeBufferToCanvas_def wh split: prod.splits)
  with packChunks_progress [OF assms, of "[]" 0 "replicate (w * h * 4) 0"]
  show ?thesis by simp
qed

text \<open>The single-file encoder reports \<^verbatim>\<open>end / combined.length\<close> after each chunk.\<close>

lemma directChunks_progress:
  "combined \<noteq> [] \<Longrightarrow> sorted ps \<Longrightarrow>
   (\<forall>p\<in>set ps. p \<le> of_nat (min (start + CHUNK_SIZE) (length combined))
                      / of_nat (length combined)) \<Longrightarrow>
   sorted (snd (directChunks combined start d ps)) \<and> snd (directChunks combined start d ps) \<noteq> []
     \<and> last (snd (directChunks combined start d ps)) = 1"
proof (induction combined start d ps rule: directChunks.induct)
  case (1 combined start d ps)
  define e where "e = min (start + CHUNK_SIZE) (length combined)"
  define d' where "d' = directLoop combined start e d"
  define ps' :: "rat list" where "ps' = ps @ [of_nat e / of_nat (length combined)]"
  have lpos: "0 < length combined" using 1(2) by simp
  have sps': "sorted ps'" using 1(3,4) by (simp add: ps'_def sorted_append e_def)
  have unfold: "directChunks combined start d ps
      = (if e < length combined then directChunks combined e d' ps' else (d', ps'))"
    by (subst directChunks.simps) (simp add: Let_def e_def d'_def ps'_def)
  show ?case
  proof (cases "e < length combined")
    case True
    have "e \<le> min (e + CHUNK_SIZE) (length combined)" using True by simp
    then have le: "(of_nat e :: rat) / of_nat (length combined)
        \<le> of_nat (min (e + CHUNK_SIZE) (length combined)) / of_nat (length combined)"
      by (intro divide_right_mono) simp_all
    have "\<forall>p\<in>set ps'. p \<le> of_nat (min (e + CHUNK_SIZE) (length combined))
                              / of_nat (length combined)"
    proof
      fix p assume "p \<in> set ps'"
      then have "p \<le> of_nat e / of_nat (length combined)"
        using 1(4) by (auto simp: ps'_def e_def)
      with le show "p \<le> of_nat (min (e + CHUNK_SIZE) (length combined))
                              / of_nat (length combined)" by simp
    qed
    with 1(1) [OF e_def d'_def ps'_def True 1(2) sps'] True unfold
    show ?thesis by simp
  next
    case False
    then have "e = length combined" by (simp add: e_def min_def split: if_splits)
    with False unfold sps' lpos show ?thesis by (simp add: ps'_def)
  qed
qed

lemma encodeFileToCanvas_progress:
  "\<exists>c ps. encodeFileToCanvas arrayBuffer filename mimeType = Inr (c, ps)
     \<and> sorted ps \<and> ps \<noteq> [] \<and> last ps = 1"
proof -
  from legacyHeader_ok obtain header where
    h: "legacyHeader (length arrayBuffer) filename mimeType = Inr header"
    and lh: "length header = LEGACY_HEADER_SIZE" by blast
  define combined where "combined = header @ arrayBuffer"
  have cb: "combinedBuffer arrayBuffer filename mimeType = Inr combined"
    by (simp add: combinedBuffer_def h bindE_def combined_def)
  have ne: "combined \<noteq> []" using lh by (auto simp: combined_def LEGACY_HEADER_SIZE_def)
  obtain w h' where wh: "calculateCanvasSize_legacy (length arrayBuffer) = (w, h')"
    by (cases "calculateCanvasSize_legacy (length arrayBuffer)")
  obtain d ps where dc: "directChunks combined 0 (replicate (w * h' * 4) 0) [] = (d, ps)"
    by (cases "directChunks combined 0 (replicate (w * h' * 4) 0) []")
  from directChunks_progress [OF ne, of "[]" 0 "replicate (w * h' * 4) 0"] dc
  have "sorted ps \<and> ps \<noteq> [] \<and> last ps = 1" by simp
  moreover have "encodeFileToCanvas arrayBuffer filename mimeType
      = Inr (\<lparr>width = w, height = h', data = d\<rparr>, ps)"
    by (simp add: encodeFileToCanvas_def wh cb dc)
  ultimately show ?thesis by blast
qed

text \<open>
  The single-file decoder reports \<^verbatim>\<open>bytesExtracted / dataLength\<close> after each chunk;
  the number of bytes extracted grows and stays within the declared length.
\<close>

lemma length_readLoop_bounds:
  "length acc \<le> n \<Longrightarrow>
   length acc \<le> length (readLoop d n i e acc) \<and> length (readLoop d n i e acc) \<le> n"
proof (induction d n i e acc rule: readLoop.induct)
  case (1 d n i e acc)
  show ?case
  proof (cases "i < e")
    case False
    with 1(3) show ?thesis by (subst readLoop.simps, subst readLoop.simps) simp
  next
    case True
    show ?thesis
    proof (cases "int (i * 3) - int LEGACY_HEADER_SIZE < 0")
      case neg: True
      from 1(1) [OF True refl refl neg 1(3)] True neg show ?thesis
        by (subst readLoop.simps, subst readLoop.simps) (simp add: Let_def)
    next
      case nonneg: False
      define a1 where "a1 = (if length acc < n then acc @ [data_at d (i * 4)] else acc)"
      define a2 where "a2 = (if length a1 < n then a1 @ [data_at d (i * 4 + 1)] else a1)"
      define a3 where "a3 = (if length a2 < n then a2 @ [data_at d (i * 4 + 2)] else a2)"
      have l3: "length acc \<le> length a3" "length a3 \<le> n"
        using 1(3) by (auto simp: a1_def a2_def a3_def)
      from 1(2) [OF True refl refl nonneg a1_def a2_def a3_def l3(2)] l3(1)
      have "length acc \<le> length (readLoop d n (i + 1) e a3)
          \<and> length (readLoop d n (i + 1) e a3) \<le> n" by simp
      moreover have "readLoop d n i e acc = readLoop d n (i + 1) e a3"
        using True nonneg by (subst readLoop.simps) (simp add: Let_def a1_def a2_def a3_def)
      ultimately show ?thesis by simp
    qed
  qed
qed

lemma readChunks_progress:
  "0 < n \<Longrightarrow> length acc \<le> n \<Longrightarrow> sorted ps \<Longrightarrow>
   (\<forall>p\<in>set ps. p \<le> of_nat (length acc) / of_nat n) \<Longrightarrow>
   (\<forall>p\<in>set ps. \<exists>k\<le>n. p = of_nat k / of_nat n) \<Longrightarrow>
   sorted (snd (readChunks d n t s acc ps)) \<and> snd (readChunks d n t s acc ps) \<noteq> []
     \<and> (\<forall>p\<in>set (snd (readChunks d n t s acc ps)). \<exists>k\<le>n. p = of_nat k / of_nat n)"
proof (induction d n t s acc ps rule: readChunks.induct)
  case (1 d n t s acc ps)
  define e where "e = min (s + ceil_div CHUNK_SIZE 3) t"
  define acc' where "acc' = readLoop d n s e acc"
  define ps' :: "rat list" where "ps' = ps @ [of_nat (length acc') / of_nat n]"
  from length_readLoop_bounds [OF 1(3), of d s e]
  have l: "length acc \<le> length acc'" "length acc' \<le> n" by (simp_all add: acc'_def)
  have mono: "(of_nat (length acc) :: rat) / of_nat n \<le> of_nat (length acc') / of_nat n"
    using l(1) by (intro divide_right_mono) simp_all
  have sps': "sorted ps'"
  proof -
    have "\<forall>p\<in>set ps. p \<le> of_nat (length acc') / of_nat n"
    proof
      fix p assume "p \<in> set ps"
      with 1(5) have "p \<le> of_nat (length acc) / of_nat n" by blast
      with mono show "p \<le> of_nat (length acc') / of_nat n" by simp
    qed
    with 1(4) show ?thesis by (simp add: ps'_def sorted_append)
  qed
  have bnd: "\<forall>p\<in>set ps'. p \<le> of_nat (length acc') / of_nat n"
  proof
    fix p assume "p \<in> set ps'"
    then have "p \<in> set ps \<or> p = of_nat (length acc') / of_nat n" by (auto simp: ps'_def)
    with 1(5) mono show "p \<le> of_nat (length acc') / of_nat n" by force
  qed
  have frac: "\<forall>p\<in>set ps'. \<exists>k\<le>n. p = of_nat k / of_nat n"
  proof
    fix p assume "p \<in> set ps'"
    then have "p \<in> set ps \<or> p = of_nat (length acc') / of_nat n" by (auto simp: ps'_def)
    with 1(6) l(2) show "\<exists>k\<le>n. p = of_nat k / of_nat n" by blast
  qed
  have unfold: "readChunks d n t s acc ps
      = (if e < t then readChunks d n t e acc' ps' else (acc', ps'))"
    by (subst readChunks.simps) (simp add: Let_def e_def acc'_def ps'_def)
  show ?case
  proof (cases "e < t")
    case True
    from 1(1) [OF e_def acc'_def ps'_def True 1(2) l(2) sps' bnd frac] True unfold
    show ?thesis by simp
  next
    case False
    with unfold sps' frac show ?thesis by (simp add: ps'_def)
  qed
qed

lemma decodeFileFromCanvas_progress:
  assumes "decodeFileFromCanvas c = Inr (f, ps)"
  shows "sorted ps \<and> ps \<noteq> []
     \<and> (\<exists>n. declaredLength c = Inr n \<and> 0 < n \<and> (\<forall>p\<in>set ps. \<exists>k\<le>n. p = of_nat k / of_nat n))"
proof -
  from assms have t: "decodeFileFromCanvas_try c = Inr (f, ps)"
    by (simp add: decodeFileFromCanvas_def split: sum.splits)
  then obtain n where n: "declaredLength c = Inr n" and pos: "0 < n"
    and ps: "ps = snd (readChunks (data c) n (ceil_div (n + LEGACY_HEADER_SIZE) 3)
                        (ceil_div LEGACY_HEADER_SIZE 3) [] [])"
    by (auto simp: decodeFileFromCanvas_try_def bindE_def Let_def
        simp del: of_nat_mult split: sum.splits if_splits prod.splits)
  from readChunks_progress [OF pos, of "[]" "[]" "data c"
      "ceil_div (n + LEGACY_HEADER_SIZE) 3" "ceil_div LEGACY_HEADER_SIZE 3"]
  have "sorted ps \<and> ps \<noteq> [] \<and> (\<forall>p\<in>set ps. \<exists>k\<le>n. p = of_nat k / of_nat n)"
    unfolding ps by simp
  with n pos show ?thesis by blast
qed

text \<open>
  The multi-file decoder reports \<^verbatim>\<open>(i + 1) / (fileCount + 1)\<close> after each file that
  it pushes.
\<close>

lemma strict_fractions:
  "sorted_wrt (<) (map (\<lambda>k. of_nat k / of_nat (n + 1) :: rat) [a ..< b])"
proof -
  have "sorted_wrt (<) [a ..< b]" by simp
  then have "sorted_wrt (\<lambda>x y. (of_nat x / of_nat (n + 1) :: rat) < of_nat y / of_nat (n + 1)) [a ..< b]"
    by (rule sorted_wrt_mono_rel [rotated]) (simp add: divide_strict_right_mono)
  then show ?thesis by (simp add: sorted_wrt_map)
qed

lemma extractFiles_fractions:
  assumes "extractFiles buf = Inr (files, ps)"
  shows "sorted_wrt (<) ps \<and> length ps = length files \<and> ps \<noteq> []
     \<and> (\<exists>n. getUint8 buf 5 = Inr n
           \<and> (\<forall>p\<in>set ps. \<exists>i<n. p = of_nat (i + 1) / of_nat (n + 1)))
     \<and> (\<forall>p\<in>set ps. 0 < p \<and> p < 1)"
proof -
  define n where "n = unat (buf ! 5)"
  from assms have g: "getUint8 buf 5 = Inr n"
    by (auto simp: extractFiles_def bindE_def getUint8_def n_def split: sum.splits if_splits)
  from extractFiles_progress [OF assms] have ne: "files \<noteq> []"
    and le: "length files \<le> n"
    and ps: "ps = map (\<lambda>k. of_nat k / of_nat (n + 1)) [1 ..< length files + 1]"
    by (simp_all add: n_def)
  have s: "sorted_wrt (<) ps" unfolding ps by (rule strict_fractions)
  have len: "length ps = length files"
    unfolding ps by (simp only: length_map length_upt add_diff_cancel_right')
  with ne have nn: "ps \<noteq> []" by auto
  have fr: "\<exists>i<n. p = of_nat (i + 1) / of_nat (n + 1)" if "p \<in> set ps" for p
  proof -
    from that obtain k where k: "1 \<le> k" "k < length files + 1" "p = of_nat k / of_nat (n + 1)"
      unfolding ps by auto
    with le have "k - 1 < n" "k = (k - 1) + 1" by simp_all
    with k(3) show ?thesis by metis
  qed
  have rng: "0 < p \<and> p < 1" if "p \<in> set ps" for p
  proof -
    from fr [OF that] obtain i where i: "i < n" "p = of_nat (i + 1) / of_nat (n + 1)" by blast
    then have "i + 1 \<le> n" by simp
    then have "(of_nat (i + 1) :: rat) / of_nat (n + 1) < 1" by (rule fraction_below_one)
    moreover have "0 < (of_nat (i + 1) :: rat) / of_nat (n + 1)" by simp
    ultimately show ?thesis by (simp only: i(2) simp_thms)
  qed
  from s len nn g fr rng show ?thesis by blast
qed

text \<open>
  Calls that report more than one fraction: a buffer and a file of more than one chunk, an
  image of more than one chunk of pixels, a container of two files.
\<close>

lemma length_readLoop:
  "11 \<le> i \<Longrightarrow> length acc \<le> n \<Longrightarrow>
   length (readLoop d n i e acc) = min n (length acc + 3 * (e - i))"
proof (induction d n i e acc rule: readLoop.induct)
  case (1 d n i e acc)
  show ?case
  proof (cases "i < e")
    case False
    with 1(4) show ?thesis by (subst readLoop.simps) simp
  next
    case True
    from 1(3) have nonneg: "\<not> int (i * 3) - int LEGACY_HEADER_SIZE < 0"
      by (simp add: LEGACY_HEADER_SIZE_def)
    define a1 where "a1 = (if length acc < n then acc @ [data_at d (i * 4)] else acc)"
    define a2 where "a2 = (if length a1 < n then a1 @ [data_at d (i * 4 + 1)] else a1)"
    define a3 where "a3 = (if length a2 < n then a2 @ [data_at d (i * 4 + 2)] else a2)"
    have l3: "length a3 = min n (length acc + 3)" "length a3 \<le> n"
      using 1(4) by (auto simp: a1_def a2_def a3_def)
    from 1(3) have "11 \<le> i + 1" by simp
    from 1(2) [OF True refl refl nonneg a1_def a2_def a3_def this l3(2)]
    have "length (readLoop d n (i + 1) e a3) = min n (length a3 + 3 * (e - (i + 1)))" .
    moreover have "readLoop d n i e acc = readLoop d n (i + 1) e a3"
      using True nonneg by (subst readLoop.simps) (simp add: Let_def a1_def a2_def a3_def)
    ultimately show ?thesis using True l3(1) by (simp add: min_def; arith)
  qed
qed

lemma encodeBufferToCanvas_two_chunks:
  "snd (encodeBufferToCanvas (replicate 393219 0)) = [131072 / 131073, 1]"
proof -
  define B :: "u8 list" where "B = replicate 393219 0"
  have len: "length B = 393219" by (simp add: B_def)
  obtain w h where wh: "calculateCanvasSize (length B) = (w, h)"
    by (cases "calculateCanvasSize (length B)")
  obtain d ps where pc: "packChunks B 0 (replicate (w * h * 4) 0) [] = (d, ps)"
    by (cases "packChunks B 0 (replicate (w * h * 4) 0) []")
  have "snd (packChunks B 0 (replicate (w * h * 4) 0) []) = [131072 / 131073, 1]"
    by (subst packChunks.simps, subst packChunks.simps) (simp add: Let_def len CHUNK_SIZE_def)
  with pc have "ps = [131072 / 131073, 1]" by simp
  then have "snd (encodeBufferToCanvas B) = [131072 / 131073, 1]"
    by (simp add: encodeBufferToCanvas_def wh pc)
  then show ?thesis by (simp only: B_def)
qed

lemma encodeFileToCanvas_two_chunks:
  "\<exists>c. encodeFileToCanvas (replicate 524257 0) [] [] = Inr (c, [524288 / 524289, 1])"
proof -
  define A :: "u8 list" where "A = replicate 524257 0"
  have lenA: "length A = 524257" by (simp add: A_def)
  from legacyHeader_ok obtain header where
    h: "legacyHeader (length A) [] [] = Inr header"
    and lh: "length header = LEGACY_HEADER_SIZE" by blast
  define combined where "combined = header @ A"
  have len: "length combined = 524289" by (simp add: combined_def lh lenA LEGACY_HEADER_SIZE_def)
  have cb: "combinedBuffer A [] [] = Inr combined"
    by (simp add: combinedBuffer_def h bindE_def combined_def)
  obtain w h' where wh: "calculateCanvasSize_legacy (length A) = (w, h')"
    by (cases "calculateCanvasSize_legacy (length A)")
  obtain d ps where dc: "directChunks combined 0 (replicate (w * h' * 4) 0) [] = (d, ps)"
    by (cases "directChunks combined 0 (replicate (w * h' * 4) 0) []")
  have "snd (directChunks combined 0 (replicate (w * h' * 4) 0) []) = [524288 / 524289, 1]"
    by (subst directChunks.simps, subst directChunks.simps) (simp add: Let_def len CHUNK_SIZE_def)
  with dc have "ps = [524288 / 524289, 1]" by simp
  then have "\<exists>c. encodeFileToCanvas A [] [] = Inr (c, [524288 / 524289, 1])"
    by (simp add: encodeFileToCanvas_def wh cb dc)
  then show ?thesis by (simp only: A_def)
qed

lemma ceil_div_chunk: "ceil_div CHUNK_SIZE 3 = 174763"
  by (simp add: ceil_div_def CHUNK_SIZE_def)

lemma decodeFileFromCanvas_two_chunks:
  "\<exists>f. decodeFileFromCanvas
          \<lparr>width = 448, height = 447,
           data = replicate 37 0 @ [0xC0, 0x27, 0, 0x09] @ replicate 800983 0\<rparr>
        = Inr (f, [174763 / 200000, 1])"
proof -
  define D :: "u8 list" where "D = replicate 37 0 @ [0xC0, 0x27, 0, 0x09] @ replicate 800983 0"
  define c where "c = \<lparr>width = 448, height = 447, data = D\<rparr>"
  have hdr: "readHeader D =
        [0, 0, 0, 0, 0, 0, 0, 0, 0, 0, 0, 0, 0, 0,
         0, 0, 0, 0, 0, 0, 0, 0, 0, 0, 0, 0, 0, 0,
         0xC0, 0x27, 0x09, 0]"
    by (simp add: readHeader_def headerLoop_unrolled data_at_def D_def nth_append
        LEGACY_HEADER_SIZE_def)
  have n: "declaredLength c = Inr 600000"
    by (simp add: declaredLength_def c_def hdr getUint32_def)
  have g: "getUint16 (readHeader D) 0 = Inr 0" "getUint16 (readHeader D) 22 = Inr 0"
    by (simp_all add: hdr getUint16_def)
  have tp: "ceil_div (600000 + LEGACY_HEADER_SIZE) 3 = 200011" "ceil_div LEGACY_HEADER_SIZE 3 = 11"
    by (simp_all add: ceil_div_def LEGACY_HEADER_SIZE_def)
  obtain bytes ps where rc: "readChunks D 600000 200011 11 [] [] = (bytes, ps)"
    by (cases "readChunks D 600000 200011 11 [] []")
  have "snd (readChunks D 600000 200011 11 [] []) = [174763 / 200000, 1]"
    by (subst readChunks.simps, subst readChunks.simps)
      (simp add: Let_def ceil_div_chunk length_readLoop)
  with rc have ps: "ps = [174763 / 200000, 1]" by simp
  have "\<exists>f. decodeFileFromCanvas_try c = Inr (f, [174763 / 200000, 1])"
    using n g tp rc ps
    by (simp add: decodeFileFromCanvas_try_def c_def bindE_def Let_def LEGACY_HEADER_SIZE_def)
  then have "\<exists>f. decodeFileFromCanvas c = Inr (f, [174763 / 200000, 1])"
    by (auto simp: decodeFileFromCanvas_def)
  then show ?thesis by (simp only: c_def D_def)
qed

lemma extractFiles_two_entries:
  "extractFiles ([0x46, 0x32, 0x50, 0x31, 1, 2] @ replicate 58 0
      @ [1, 0, 97] @ replicate 120 0 @ [1, 0, 0, 0, 0]
      @ replicate 123 0 @ [3, 0, 0, 0, 1]
      @ [0, 0, 0, 9])
   = Inr ([\<lparr>ename = [97], etype = octet_stream, edata = [0]\<rparr>,
           \<lparr>ename = [], etype = octet_stream, edata = [0, 0, 9]\<rparr>], [1 / 3, 2 / 3])"
proof -
  define B :: "u8 list" where "B = [0x46, 0x32, 0x50, 0x31, 1, 2] @ replicate 58 0
      @ [1, 0, 97] @ replicate 120 0 @ [1, 0, 0, 0, 0]
      @ replicate 123 0 @ [3, 0, 0, 0, 1] @ [0, 0, 0, 9]"
  have len: "length B = 324" by (simp add: B_def)
  have hd: "getUint8 B 0 = Inr 0x46" "getUint8 B 1 = Inr 0x32" "getUint8 B 2 = Inr 0x50"
    "getUint8 B 3 = Inr 0x31" "getUint8 B 4 = Inr 1" "getUint8 B 5 = Inr 2"
    by (simp_all add: B_def getUint8_def)
  have e0: "readEntry B 2 64 = Inr (Some \<lparr>ename = [97], etype = octet_stream, edata = [0]\<rparr>)"
    by (simp add: B_def readEntry_def dataview_defs nth_append TextDecoder_decode_def Let_def)
  have e1: "readEntry B 2 192 = Inr (Some \<lparr>ename = [], etype = octet_stream, edata = [0, 0, 9]\<rparr>)"
    by (simp add: B_def readEntry_def dataview_defs nth_append TextDecoder_decode_def Let_def)
  have "extractLoop B 2 0 64 [] []
          = Inr ([\<lparr>ename = [97], etype = octet_stream, edata = [0]\<rparr>,
                  \<lparr>ename = [], etype = octet_stream, edata = [0, 0, 9]\<rparr>], [1 / 3, 2 / 3])"
    using e0 e1 len by (simp add: extractLoop_step extractLoop_done FILE_HEADER_SIZE_def)
  then have "extractFiles B
          = Inr ([\<lparr>ename = [97], etype = octet_stream, edata = [0]\<rparr>,
                  \<lparr>ename = [], etype = octet_stream, edata = [0, 0, 9]\<rparr>], [1 / 3, 2 / 3])"
    using hd by (simp add: extractFiles_def bindE_def HEADER_SIZE_def)
  then show ?thesis by (simp only: B_def)
qed

text \<open>
  The last fraction of the single-file decoder is left out of what follows. The decoder
  starts at pixel 11 and so passes over the first byte of the data, which shares pixel 10
  with the end of the header; when the header and the data fill their last pixel, the
  bytes extracted are one short of the declared length, as for the 10 bytes declared here.
\<close>

lemma decodeFileFromCanvas_ends_below_one:
  "\<exists>f. decodeFileFromCanvas
          \<lparr>width = 4, height = 4, data = replicate 37 0 @ [10] @ replicate 26 0\<rparr>
        = Inr (f, [9 / 10])"
proof -
  define D :: "u8 list" where "D = replicate 37 0 @ [10] @ replicate 26 0"
  define c where "c = \<lparr>width = 4, height = 4, data = D\<rparr>"
  have hdr: "readHeader D =
        [0, 0, 0, 0, 0, 0, 0, 0, 0, 0, 0, 0, 0, 0,
         0, 0, 0, 0, 0, 0, 0, 0, 0, 0, 0, 0, 0, 0,
         10, 0, 0, 0]"
    by (simp add: readHeader_def headerLoop_unrolled data_at_def D_def nth_append
        LEGACY_HEADER_SIZE_def)
  have n: "declaredLength c = Inr 10"
    by (simp add: declaredLength_def c_def hdr getUint32_def)
  have g: "getUint16 (readHeader D) 0 = Inr 0" "getUint16 (readHeader D) 22 = Inr 0"
    by (simp_all add: hdr getUint16_def)
  have tp: "ceil_div (10 + LEGACY_HEADER_SIZE) 3 = 14" "ceil_div LEGACY_HEADER_SIZE 3 = 11"
    by (simp_all add: ceil_div_def LEGACY_HEADER_SIZE_def)
  obtain bytes ps where rc: "readChunks D 10 14 11 [] [] = (bytes, ps)"
    by (cases "readChunks D 10 14 11 [] []")
  have "snd (readChunks D 10 14 11 [] []) = [9 / 10]"
    by (subst readChunks.simps) (simp add: Let_def ceil_div_chunk length_readLoop)
  with rc have ps: "ps = [9 / 10]" by simp
  have "\<exists>f. decodeFileFromCanvas_try c = Inr (f, [9 / 10])"
    using n g tp rc ps
    by (simp add: decodeFileFromCanvas_try_def c_def bindE_def Let_def LEGACY_HEADER_SIZE_def)
  then have "\<exists>f. decodeFileFromCanvas c = Inr (f, [9 / 10])"
    by (auto simp: decodeFileFromCanvas_def)
  then show ?thesis by (simp only: c_def D_def)
qed

text \<open>
  C7, as the code has it. The fractions reported never decrease within the pixel-write
  phase of the multi-file encoder (\<^verbatim>\<open>encodeBufferToCanvas\<close> on a non-empty buffer),
  within the single-file encoder, which always completes, within a single-file read that
  completes and within a multi-file read that completes. The two writers end at exactly 1.
  The single-file read reports the bytes extracted so far over the declared length, at
  most 1. The multi-file read reports one fraction for each file returned, the fraction
  \<open>(i + 1) / (fileCount + 1)\<close> for an index \<open>i\<close> below the declared number of files: its
  fractions increase strictly and all of them, the last one included, are below 1.
\<close>

theorem progress_of_write_and_read:
  "(arrayBuffer \<noteq> [] \<longrightarrow>
      sorted (snd (encodeBufferToCanvas arrayBuffer))
      \<and> snd (encodeBufferToCanvas arrayBuffer) \<noteq> []
      \<and> last (snd (encodeBufferToCanvas arrayBuffer)) = 1)
   \<and> (\<exists>c ps. encodeFileToCanvas fileData filename mimeType = Inr (c, ps)
          \<and> sorted ps \<and> ps \<noteq> [] \<and> last ps = 1)
   \<and> (decodeFileFromCanvas cv = Inr (f, ps1) \<longrightarrow>
      sorted ps1 \<and> ps1 \<noteq> []
      \<and> (\<exists>n. declaredLength cv = Inr n \<and> 0 < n
            \<and> (\<forall>p\<in>set ps1. \<exists>k\<le>n. p = of_nat k / of_nat n)))
   \<and> (extractFiles buf = Inr (files, ps2) \<longrightarrow>
      sorted ps2 \<and> sorted_wrt (<) ps2 \<and> length ps2 = length files \<and> ps2 \<noteq> []
      \<and> (\<exists>n. getUint8 buf 5 = Inr n
            \<and> (\<forall>p\<in>set ps2. \<exists>i<n. p = of_nat (i + 1) / of_nat (n + 1)))
      \<and> (\<forall>p\<in>set ps2. 0 < p \<and> p < 1))"
proof -
  have a: "arrayBuffer \<noteq> [] \<longrightarrow>
      sorted (snd (encodeBufferToCanvas arrayBuffer))
      \<and> snd (encodeBufferToCanvas arrayBuffer) \<noteq> []
      \<and> last (snd (encodeBufferToCanvas arrayBuffer)) = 1"
    using encodeBufferToCanvas_progress [of arrayBuffer] by blast
  have b: "\<exists>c ps. encodeFileToCanvas fileData filename mimeType = Inr (c, ps)
          \<and> sorted ps \<and> ps \<noteq> [] \<and> last ps = 1"
    by (rule encodeFileToCanvas_progress)
  have c: "decodeFileFromCanvas cv = Inr (f, ps1) \<longrightarrow>
      sorted ps1 \<and> ps1 \<noteq> []
      \<and> (\<exists>n. declaredLength cv = Inr n \<and> 0 < n
            \<and> (\<forall>p\<in>set ps1. \<exists>k\<le>n. p = of_nat k / of_nat n))"
    using decodeFileFromCanvas_progress [of cv f ps1] by blast
  have d: "extractFiles buf = Inr (files, ps2) \<longrightarrow>
      sorted ps2 \<and> sorted_wrt (<) ps2 \<and> length ps2 = length files \<and> ps2 \<noteq> []
      \<and> (\<exists>n. getUint8 buf 5 = Inr n
            \<and> (\<forall>p\<in>set ps2. \<exists>i<n. p = of_nat (i + 1) / of_nat (n + 1)))
      \<and> (\<forall>p\<in>set ps2. 0 < p \<and> p < 1)"
  proof
    assume "extractFiles buf = Inr (files, ps2)"
    from extractFiles_fractions [OF this] have
      s: "sorted_wrt (<) ps2" and r: "length ps2 = length files \<and> ps2 \<noteq> []
      \<and> (\<exists>n. getUint8 buf 5 = Inr n
            \<and> (\<forall>p\<in>set ps2. \<exists>i<n. p = of_nat (i + 1) / of_nat (n + 1)))
      \<and> (\<forall>p\<in>set ps2. 0 < p \<and> p < 1)" by blast+
    from s have "sorted ps2" by (rule strict_sorted_imp_sorted)
    with s r show "sorted ps2 \<and> sorted_wrt (<) ps2 \<and> length ps2 = length files \<and> ps2 \<noteq> []
      \<and> (\<exists>n. getUint8 buf 5 = Inr n
            \<and> (\<forall>p\<in>set ps2. \<exists>i<n. p = of_nat (i + 1) / of_nat (n + 1)))
      \<and> (\<forall>p\<in>set ps2. 0 < p \<and> p < 1)" by blast
  qed
  from a b c d show ?thesis by blast
qed

theorem progress_of_write_and_read_witness:
  "replicate 393219 (0 :: u8) \<noteq> []
   \<and> snd (encodeBufferToCanvas (replicate 393219 0)) = [131072 / 131073, 1]
   \<and> sorted (snd (encodeBufferToCanvas (replicate 393219 0)))
   \<and> last (snd (encodeBufferToCanvas (replicate 393219 0))) = 1
   \<and> (\<exists>c. encodeFileToCanvas (replicate 524257 0) [] [] = Inr (c, [524288 / 524289, 1]))
   \<and> (\<exists>f. decodeFileFromCanvas
            \<lparr>width = 448, height = 447,
             data = replicate 37 0 @ [0xC0, 0x27, 0, 0x09] @ replicate 800983 0\<rparr>
          = Inr (f, [174763 / 200000, 1]))
   \<and> sorted [174763 / 200000, 1 :: rat]
   \<and> extractFiles ([0x46, 0x32, 0x50, 0x31, 1, 2] @ replicate 58 0
        @ [1, 0, 97] @ replicate 120 0 @ [1, 0, 0, 0, 0]
        @ replicate 123 0 @ [3, 0, 0, 0, 1]
        @ [0, 0, 0, 9])
      = Inr ([\<lparr>ename = [97], etype = octet_stream, edata = [0]\<rparr>,
              \<lparr>ename = [], etype = octet_stream, edata = [0, 0, 9]\<rparr>], [1 / 3, 2 / 3])
   \<and> sorted_wrt (<) [1 / 3, 2 / 3 :: rat]
   \<and> last [1 / 3, 2 / 3 :: rat] < 1"
proof -
  define A :: "u8 list" where "A = replicate 393219 0"
  define cv where "cv = \<lparr>width = 448, height = 447,
             data = replicate 37 0 @ [0xC0, 0x27, 0, 0x09] @ replicate 800983 (0 :: u8)\<rparr>"
  define buf :: "u8 list" where "buf = [0x46, 0x32, 0x50, 0x31, 1, 2] @ replicate 58 0
        @ [1, 0, 97] @ replicate 120 0 @ [1, 0, 0, 0, 0]
        @ replicate 123 0 @ [3, 0, 0, 0, 1] @ [0, 0, 0, 9]"
  define files where "files = [\<lparr>ename = [97], etype = octet_stream, edata = [0 :: u8]\<rparr>,
              \<lparr>ename = [], etype = octet_stream, edata = [0, 0, 9]\<rparr>]"
  have ne: "A \<noteq> []" by (simp add: A_def)
  have w: "snd (encodeBufferToCanvas A) = [131072 / 131073, 1]"
    unfolding A_def by (rule encodeBufferToCanvas_two_chunks)
  have sf: "\<exists>c. encodeFileToCanvas (replicate 524257 0) [] [] = Inr (c, [524288 / 524289, 1])"
    by (rule encodeFileToCanvas_two_chunks)
  from decodeFileFromCanvas_two_chunks obtain f where
    dec: "decodeFileFromCanvas cv = Inr (f, [174763 / 200000, 1])" unfolding cv_def by blast
  have ext: "extractFiles buf = Inr (files, [1 / 3, 2 / 3])"
    unfolding buf_def files_def by (rule extractFiles_two_entries)
  note th = progress_of_write_and_read [where arrayBuffer = A and cv = cv and f = f
      and ?ps1.0 = "[174763 / 200000, 1]" and buf = buf and files = files
      and ?ps2.0 = "[1 / 3, 2 / 3]"]
  from th ne have w1: "sorted (snd (encodeBufferToCanvas A))"
    and w2: "last (snd (encodeBufferToCanvas A)) = 1" by blast+
  from th dec have r1: "sorted [174763 / 200000, 1 :: rat]" by blast
  from th ext have x1: "sorted_wrt (<) [1 / 3, 2 / 3 :: rat]"
    and x2: "\<forall>p\<in>set [1 / 3, 2 / 3 :: rat]. 0 < p \<and> p < 1" by blast+
  have "last [1 / 3, 2 / 3 :: rat] \<in> set [1 / 3, 2 / 3 :: rat]" by (rule last_in_set) simp
  with x2 have x3: "last [1 / 3, 2 / 3 :: rat] < 1" by blast
  from dec have dec': "\<exists>f. decodeFileFromCanvas cv = Inr (f, [174763 / 200000, 1])" by blast
  from ne w w1 w2 sf dec' r1 ext x1 x3 have
    "A \<noteq> [] \<and> snd (encodeBufferToCanvas A) = [131072 / 131073, 1]
     \<and> sorted (snd (encodeBufferToCanvas A)) \<and> last (snd (encodeBufferToCanvas A)) = 1
     \<and> (\<exists>c. encodeFileToCanvas (replicate 524257 0) [] [] = Inr (c, [524288 / 524289, 1]))
     \<and> (\<exists>f. decodeFileFromCanvas cv = Inr (f, [174763 / 200000, 1]))
     \<and> sorted [174763 / 200000, 1 :: rat]
     \<and> extractFiles buf = Inr (files, [1 / 3, 2 / 3])
     \<and> sorted_wrt (<) [1 / 3, 2 / 3 :: rat] \<and> last [1 / 3, 2 / 3 :: rat] < 1"
    by (intro conjI)
  then show ?thesis unfolding A_def cv_def buf_def files_def .
qed

text \<open>
  A read that succeeds and whose last reported fraction is one half: the container with
  one file of three bytes.
\<close>

theorem extract_progress_counterexample:
  "extractFiles ([0x46, 0x32, 0x50, 0x31, 1, 1] @ replicate 58 0
      @ [1, 0, 97] @ replicate 120 0 @ [3, 0, 0, 0, 0]
      @ [0, 0, 0])
     = Inr ([\<lparr>ename = [97], etype = octet_stream, edata = [0, 0, 0]\<rparr>], [1 / 2])
   \<and> last [1 / 2 :: rat] \<noteq> 1"
  using extractFiles_one_entry by simp

end
